theory Spec2Isabelle
  imports Main "HOL-Library.Sublist"
begin

section \<open>Strings of the playlist text\<close>

text \<open>
  A JavaScript string is modelled as a \<open>string\<close> (a list of 8-bit characters): playlist
  text, URLs and error messages are sequences of code units below 256. The helpers below are
  the String and Array methods that \<^verbatim>\<open>main.ts\<close> calls, each with the meaning the
  language gives it.
\<close>

definition startsWith :: "string \<Rightarrow> string \<Rightarrow> bool" where
  \<comment> \<open>\<^verbatim>\<open>s.startsWith(p)\<close>\<close>
  "startsWith s p = (take (length p) s = p)"

fun includesStr :: "string \<Rightarrow> string \<Rightarrow> bool" where
  \<comment> \<open>\<^verbatim>\<open>s.includes(p)\<close>: \<open>p\<close> occurs at some position of \<open>s\<close>\<close>
  "includesStr [] p = (p = [])"
| "includesStr (c # cs) p = (startsWith (c # cs) p \<or> includesStr cs p)"

fun split_on :: "char \<Rightarrow> string \<Rightarrow> string list" where
  \<comment> \<open>\<^verbatim>\<open>s.split(c)\<close> for a one-character separator; the result is never empty
      (the empty string splits into one empty piece)\<close>
  "split_on c [] = [[]]"
| "split_on c (x # xs) =
     (if x = c then [] # split_on c xs
      else (case split_on c xs of
              [] \<Rightarrow> [[x]]
            | l # ls \<Rightarrow> (x # l) # ls))"

fun join :: "string \<Rightarrow> string list \<Rightarrow> string" where
  \<comment> \<open>\<^verbatim>\<open>parts.join(sep)\<close>\<close>
  "join sep [] = []"
| "join sep [p] = p"
| "join sep (p # q # ps) = p @ sep @ join sep (q # ps)"

definition is_space :: "char \<Rightarrow> bool" where
  \<comment> \<open>the white space and line terminators below 256 that \<^verbatim>\<open>trim\<close> removes:
      TAB, LF, VT, FF, CR, SPACE, NBSP\<close>
  "is_space c = (c \<in> {CHR 0x09, CHR 0x0A, CHR 0x0B, CHR 0x0C, CHR 0x0D, CHR 0x20, CHR 0xA0})"

definition trim :: "string \<Rightarrow> string" where
  \<comment> \<open>\<^verbatim>\<open>s.trim()\<close>\<close>
  "trim s = rev (dropWhile is_space (rev (dropWhile is_space s)))"

definition is_digit :: "char \<Rightarrow> bool" where
  \<comment> \<open>the class \<^verbatim>\<open>\d\<close> of a regular expression without the unicode flag: 0 to 9\<close>
  "is_digit c = (c \<in> set ''0123456789'')"

definition lookup :: "'a list \<Rightarrow> nat \<Rightarrow> 'a option" where
  \<comment> \<open>\<^verbatim>\<open>xs[i]\<close>: \<open>None\<close> stands for the \<^verbatim>\<open>undefined\<close> of an index out of range\<close>
  "lookup xs i = (if i < length xs then Some (xs ! i) else None)"

section \<open>resolveUrl\<close>

definition match_domain :: "string \<Rightarrow> string option" where
  \<comment> \<open>\<^verbatim>\<open>baseUrl.match(/^(https?:\/\/[^\/]+)/)\<close>: the first group, when the
      expression matches: the scheme, then the longest non-empty run of characters other
      than \<^verbatim>\<open>/\<close>\<close>
  "match_domain baseUrl =
     (let scheme =
            (if startsWith baseUrl ''https://'' then Some ''https://''
             else if startsWith baseUrl ''http://'' then Some ''http://''
             else None)
      in case scheme of
           None \<Rightarrow> None
         | Some sc \<Rightarrow>
             (let host = takeWhile (\<lambda>c. c \<noteq> CHR ''/'') (drop (length sc) baseUrl)
              in if host = [] then None else Some (sc @ host)))"

definition resolveUrl :: "string \<Rightarrow> string \<Rightarrow> string" where
  "resolveUrl url baseUrl =
     (if startsWith url ''http://'' \<or> startsWith url ''https://'' then url
      else
        let baseParts = butlast (split_on (CHR ''/'') baseUrl);
            baseDir = join ''/'' baseParts
        in if startsWith url ''/''
           then (case match_domain baseUrl of Some domain \<Rightarrow> domain @ url | None \<Rightarrow> url)
           else baseDir @ ''/'' @ url)"

section \<open>Segment extraction\<close>

definition is_segment_line :: "string \<Rightarrow> bool" where
  \<comment> \<open>the test of the extraction loop:
      \<^verbatim>\<open>!line.startsWith('#') && line.trim().length > 0\<close>\<close>
  "is_segment_line line = (\<not> startsWith line ''#'' \<and> length (trim line) > 0)"

fun push_segments :: "string \<Rightarrow> string list \<Rightarrow> string list \<Rightarrow> string list" where
  \<comment> \<open>the loop \<^verbatim>\<open>for (const line of lines)\<close> with the array \<open>segments\<close> threaded through\<close>
  "push_segments baseUrl [] segments = segments"
| "push_segments baseUrl (line # lines) segments =
     (if is_segment_line line
      then push_segments baseUrl lines (segments @ [resolveUrl line baseUrl])
      else push_segments baseUrl lines segments)"

definition extractSegments :: "string \<Rightarrow> string \<Rightarrow> string list" where
  \<comment> \<open>lines 76 to 84 of \<^verbatim>\<open>processMediaPlaylist\<close>\<close>
  "extractSegments playlist baseUrl = push_segments baseUrl (split_on (CHR 0x0A) playlist) []"

section \<open>Numbers and parseInt\<close>

text \<open>
  A bandwidth is a JavaScript Number produced by \<^verbatim>\<open>parseInt\<close>: an integer-valued
  double, an infinity or NaN. \<open>Num k\<close> is the double whose value is the integer \<open>k\<close>
  (the two zeros are not distinguished). \<open>round_double\<close> rounds a non-negative integer
  to the nearest double, ties to even, as the engine does for the digits that
  \<^verbatim>\<open>parseInt\<close> reads, so that two digit strings that denote the same double compare
  equal in the model as they do in the program.
\<close>

datatype number = NaN | Num int | PosInf | NegInf

fun num_gt :: "number \<Rightarrow> number \<Rightarrow> bool" where
  \<comment> \<open>\<^verbatim>\<open>a > b\<close> on Numbers; every comparison with NaN is false\<close>
  "num_gt (Num a) (Num b) = (b < a)"
| "num_gt PosInf (Num b) = True"
| "num_gt PosInf NegInf = True"
| "num_gt (Num a) NegInf = True"
| "num_gt a b = False"

function halvings :: "int \<Rightarrow> nat" where
  \<comment> \<open>how many binary digits of \<open>n\<close> lie beyond the 53 that a double keeps\<close>
  "halvings n = (if n < 2 ^ 53 then 0 else Suc (halvings (n div 2)))"
  by pat_completeness auto
termination
  by (relation "measure nat") auto

declare halvings.simps [simp del]

definition round_double :: "int \<Rightarrow> int" where
  \<comment> \<open>a non-negative integer rounded to 53 significant binary digits, to nearest,
      ties to even\<close>
  "round_double n =
     (let sh = halvings n
      in if sh = 0 then n
         else
           let q = n div 2 ^ sh;
               r = n mod 2 ^ sh;
               half = 2 ^ (sh - 1);
               q' = (if half < r \<or> (r = half \<and> odd q) then q + 1 else q)
           in q' * 2 ^ sh)"

definition to_number :: "bool \<Rightarrow> int \<Rightarrow> number" where
  \<comment> \<open>the Number for the integer of magnitude \<open>n\<close>, negative when the flag is set;
      a magnitude that rounds to \<open>2 ^ 1024\<close> overflows to an infinity\<close>
  "to_number negative n =
     (let m = round_double n
      in if 2 ^ 1024 \<le> m then (if negative then NegInf else PosInf)
         else Num (if negative then - m else m))"

definition digit_value :: "char \<Rightarrow> int" where
  "digit_value c =
     (if c \<in> set ''0123456789'' then of_char c - 48
      else if c \<in> set ''abcdef'' then of_char c - 87
      else of_char c - 55)"

definition is_radix_digit :: "int \<Rightarrow> char \<Rightarrow> bool" where
  "is_radix_digit radix c =
     (if radix = 16 then c \<in> set ''0123456789abcdefABCDEF'' else c \<in> set ''0123456789'')"

definition digits_value :: "int \<Rightarrow> string \<Rightarrow> int" where
  "digits_value radix z = foldl (\<lambda>acc c. acc * radix + digit_value c) 0 z"

definition parseInt :: "string \<Rightarrow> number" where
  \<comment> \<open>\<^verbatim>\<open>parseInt(s)\<close> with no radix argument: leading white space is skipped, then an
      optional sign, then an optional \<^verbatim>\<open>0x\<close> prefix that selects radix 16; the longest
      run of digits is read, and NaN is the result when there is none\<close>
  "parseInt s =
     (let s1 = dropWhile is_space s;
          negative = startsWith s1 ''-'';
          s2 = (if startsWith s1 ''-'' \<or> startsWith s1 ''+'' then tl s1 else s1);
          hex = (startsWith s2 ''0x'' \<or> startsWith s2 ''0X'');
          radix = (if hex then 16 else 10);
          s3 = (if hex then drop 2 s2 else s2);
          z = takeWhile (is_radix_digit radix) s3
      in if z = [] then NaN else to_number negative (digits_value radix z))"

section \<open>Errors\<close>

text \<open>
  A thrown JavaScript error is its class name and its message. \<^verbatim>\<open>main.ts\<close> constructs
  only \<^verbatim>\<open>new Error(...)\<close>; the runtime adds the \<^verbatim>\<open>TypeError\<close> of a method call on
  \<^verbatim>\<open>undefined\<close>, and the transport may reject with an error of its own.
\<close>

datatype js_error = JsError (err_name: string) (err_message: string)

definition undefined_startsWith :: js_error where
  \<comment> \<open>what \<^verbatim>\<open>url.startsWith(...)\<close> throws when \<open>url\<close> is \<^verbatim>\<open>undefined\<close>\<close>
  "undefined_startsWith =
     JsError ''TypeError'' ''Cannot read properties of undefined (reading 'startsWith')''"

section \<open>extractHighestQualityStream\<close>

definition STREAM_INF :: string where
  "STREAM_INF = ''#EXT-X-STREAM-INF''"

fun match_bandwidth :: "string \<Rightarrow> string option" where
  \<comment> \<open>\<^verbatim>\<open>line.match(/BANDWIDTH=(\d+)/)\<close>: the digits captured by the leftmost match,
      the group being greedy\<close>
  "match_bandwidth [] = None"
| "match_bandwidth (c # cs) =
     (if startsWith (c # cs) ''BANDWIDTH='' \<and> takeWhile is_digit (drop 10 (c # cs)) \<noteq> []
      then Some (takeWhile is_digit (drop 10 (c # cs)))
      else match_bandwidth cs)"

function scan_lines ::
  "string list \<Rightarrow> string \<Rightarrow> nat \<Rightarrow> number \<Rightarrow> string \<Rightarrow> js_error + (number \<times> string)" where
  \<comment> \<open>the loop \<^verbatim>\<open>for (let i = 0; i < lines.length; i++)\<close> from index \<open>i\<close>, with the
      variables \<open>highestBandwidth\<close> and \<open>selectedStreamUrl\<close>. \<^verbatim>\<open>lines[i + 1]\<close> is
      \<^verbatim>\<open>undefined\<close> past the end, and \<^verbatim>\<open>resolveUrl\<close> then throws at its first
      statement\<close>
  "scan_lines lines baseUrl i highestBandwidth selectedStreamUrl =
     (if i < length lines then
        let line = lines ! i
        in if includesStr line STREAM_INF then
             (case match_bandwidth line of
                Some digits \<Rightarrow>
                  let bandwidth = parseInt digits
                  in if num_gt bandwidth highestBandwidth then
                       (case lookup lines (i + 1) of
                          None \<Rightarrow> Inl undefined_startsWith
                        | Some streamUrl \<Rightarrow>
                            scan_lines lines baseUrl (i + 1) bandwidth (resolveUrl streamUrl baseUrl))
                     else scan_lines lines baseUrl (i + 1) highestBandwidth selectedStreamUrl
              | None \<Rightarrow> scan_lines lines baseUrl (i + 1) highestBandwidth selectedStreamUrl)
           else scan_lines lines baseUrl (i + 1) highestBandwidth selectedStreamUrl
      else Inr (highestBandwidth, selectedStreamUrl))"
  by pat_completeness auto
termination
  by (relation "measure (\<lambda>(lines, baseUrl, i, hb, sel). length lines - i)") auto

declare scan_lines.simps [simp del]

definition extractHighestQualityStream :: "string \<Rightarrow> string \<Rightarrow> js_error + string" where
  "extractHighestQualityStream playlist baseUrl =
     (case scan_lines (split_on (CHR 0x0A) playlist) baseUrl 0 (Num 0) [] of
        Inl e \<Rightarrow> Inl e
      | Inr (highestBandwidth, selectedStreamUrl) \<Rightarrow> Inr selectedStreamUrl)"

definition is_variant_line :: "string \<Rightarrow> bool" where
  \<comment> \<open>a stream-info tag line with a parseable BANDWIDTH attribute\<close>
  "is_variant_line line = (includesStr line STREAM_INF \<and> match_bandwidth line \<noteq> None)"

definition bandwidth_of :: "string \<Rightarrow> number" where
  \<comment> \<open>the Number the loop reads from such a line\<close>
  "bandwidth_of line = (case match_bandwidth line of Some digits \<Rightarrow> parseInt digits | None \<Rightarrow> NaN)"

section \<open>The transport, the sink and the event trace\<close>

text \<open>
  The transport is a function from the URL to what \<^verbatim>\<open>fetch\<close> yields: a rejection, or
  a response with its status, status text and body. A body is a string of bytes, and the
  text of a playlist is its body. Reading the body of a response and the file system calls
  are taken to succeed, and a write appends the whole buffer. The progress bar and the
  console are left out.

  The observable effects are recorded in a trace, in the order in which the single control
  flow performs them: the opening of the output file, the fetches as they are issued, the
  return of \<^verbatim>\<open>await Promise.all\<close> with the number of results, the writes, the closing
  of the file. The index logged with a fetch or a write is the \<open>batchIndex\<close> that the
  source computes. \<open>PlaylistFetched url\<close> is the call \<^verbatim>\<open>fetchText(url)\<close> and
  \<open>EnsureDir f\<close> the call \<^verbatim>\<open>ensureDir(dirname(f))\<close> of \<^verbatim>\<open>downloadM3U8\<close>.

  The concurrency and the loop index are modelled as integers (\<open>Num k\<close> is \<open>k\<close>);
  NaN, fractions and infinities as concurrency are outside the model.
\<close>

datatype fetch_outcome = Rejected js_error | Response nat string string

datatype event =
    PlaylistFetched string
  | EnsureDir string
  | FileOpen string
  | FetchIssued int string
  | BatchJoined nat
  | FileWrite int string
  | FileClose

definition response_ok :: "nat \<Rightarrow> bool" where
  \<comment> \<open>\<^verbatim>\<open>response.ok\<close>: the status is in the range 200 to 299\<close>
  "response_ok status = (200 \<le> status \<and> status \<le> 299)"

fun show_nat :: "nat \<Rightarrow> string" where
  \<comment> \<open>the decimal digits of a number inside a template literal\<close>
  "show_nat n =
     (if n < 10 then [char_of (48 + n)]
      else show_nat (n div 10) @ [char_of (48 + n mod 10)])"

declare show_nat.simps [simp del]

definition fetchText :: "(string \<Rightarrow> fetch_outcome) \<Rightarrow> string \<Rightarrow> js_error + string" where
  "fetchText fetch url =
     (case fetch url of
        Rejected e \<Rightarrow> Inl e
      | Response status statusText body \<Rightarrow>
          if \<not> response_ok status
          then Inl (JsError ''Error''
                 (''Failed to fetch '' @ url @ '': '' @ show_nat status @ '' '' @ statusText))
          else Inr body)"

definition downloadSegment :: "(string \<Rightarrow> fetch_outcome) \<Rightarrow> string \<Rightarrow> js_error + string" where
  "downloadSegment fetch url =
     (case fetch url of
        Rejected e \<Rightarrow> Inl e
      | Response status statusText body \<Rightarrow>
          if \<not> response_ok status
          then Inl (JsError ''Error''
                 (''Failed to fetch segment '' @ url @ '': '' @ show_nat status @ '' '' @ statusText))
          else Inr body)"

subsection \<open>Promise.all\<close>

text \<open>
  A promise of a batch is the time at which it settles and its outcome. The completion
  order of a batch is the order of these times (the earlier position first among equal
  times), so every assignment of times is a completion order and every completion order
  comes from one. \<^verbatim>\<open>Promise.all\<close> rejects with the reason of the promise that rejects
  first, and otherwise fulfils with the values in the order of the promises, whatever the
  order in which they settled.
\<close>

fun first_rejection :: "(nat \<times> (js_error + 'a)) list \<Rightarrow> (nat \<times> js_error) option" where
  "first_rejection [] = None"
| "first_rejection ((t, Inr v) # ps) = first_rejection ps"
| "first_rejection ((t, Inl e) # ps) =
     (case first_rejection ps of
        None \<Rightarrow> Some (t, e)
      | Some (t', e') \<Rightarrow> if t' < t then Some (t', e') else Some (t, e))"

definition promise_all :: "(nat \<times> (js_error + 'a)) list \<Rightarrow> js_error + 'a list" where
  "promise_all ps =
     (case first_rejection ps of
        Some (t, e) \<Rightarrow> Inl e
      | None \<Rightarrow> Inr (concat (map (\<lambda>(t, r). case r of Inl e \<Rightarrow> [] | Inr v \<Rightarrow> [v]) ps)))"

section \<open>processMediaPlaylist\<close>

definition slice :: "'a list \<Rightarrow> int \<Rightarrow> int \<Rightarrow> 'a list" where
  \<comment> \<open>\<^verbatim>\<open>xs.slice(start, end)\<close>: a negative bound counts from the end, both bounds are
      clamped to the array\<close>
  "slice xs start end =
     (let len = int (length xs);
          k = (if start < 0 then max (len + start) 0 else min start len);
          final = (if end < 0 then max (len + end) 0 else min end len)
      in take (nat (final - k)) (drop (nat k) xs))"

definition batch_promises ::
  "(string \<Rightarrow> fetch_outcome) \<Rightarrow> (int \<Rightarrow> nat) \<Rightarrow> int \<Rightarrow> string list
     \<Rightarrow> (nat \<times> (js_error + int \<times> string)) list" where
  \<comment> \<open>\<^verbatim>\<open>batch.map(async (segmentUrl, index) => ...)\<close>: one promise for each URL of the
      batch, settling at the time \<open>delay batchIndex\<close> with \<open>{index, data}\<close> or with the
      error of \<^verbatim>\<open>downloadSegment\<close>\<close>
  "batch_promises fetch delay i batch =
     map (\<lambda>(index, segmentUrl).
            let batchIndex = i + int index
            in (delay batchIndex,
                case downloadSegment fetch segmentUrl of
                  Inl e \<Rightarrow> Inl e
                | Inr data \<Rightarrow> Inr (batchIndex, data)))
         (enumerate 0 batch)"

definition batch_issues :: "int \<Rightarrow> string list \<Rightarrow> event list" where
  \<comment> \<open>the fetches that the callbacks of \<^verbatim>\<open>batch.map\<close> issue, in the order of the batch\<close>
  "batch_issues i batch =
     map (\<lambda>(index, segmentUrl). FetchIssued (i + int index) segmentUrl) (enumerate 0 batch)"

fun batch_loop ::
  "(string \<Rightarrow> fetch_outcome) \<Rightarrow> (int \<Rightarrow> nat) \<Rightarrow> string list \<Rightarrow> int \<Rightarrow> nat \<Rightarrow> int
     \<Rightarrow> event list \<Rightarrow> ((js_error + unit) \<times> event list) option" where
  \<comment> \<open>the loop \<^verbatim>\<open>for (let i = 0; i < segments.length; i += concurrency)\<close> from index
      \<open>i\<close>; the fuel bounds the number of iterations, and \<open>None\<close> is a loop that has not
      returned within it\<close>
  "batch_loop fetch delay segments concurrency 0 i tr =
     (if i < int (length segments) then None else Some (Inr (), tr))"
| "batch_loop fetch delay segments concurrency (Suc fuel) i tr =
     (if i < int (length segments) then
        let batch = slice segments i (i + concurrency);
            tr1 = tr @ batch_issues i batch
        in case promise_all (batch_promises fetch delay i batch) of
             Inl e \<Rightarrow> Some (Inl e, tr1)
           | Inr results \<Rightarrow>
               batch_loop fetch delay segments concurrency fuel (i + concurrency)
                 (tr1 @ [BatchJoined (length results)]
                      @ map (\<lambda>(index, data). FileWrite index data) (sort_key fst results))
      else Some (Inr (), tr))"

definition processMediaPlaylist ::
  "(string \<Rightarrow> fetch_outcome) \<Rightarrow> (int \<Rightarrow> nat) \<Rightarrow> nat \<Rightarrow> string \<Rightarrow> string \<Rightarrow> string \<Rightarrow> int
     \<Rightarrow> event list \<Rightarrow> ((js_error + unit) \<times> event list) option" where
  \<comment> \<open>the \<^verbatim>\<open>finally\<close> block closes the file on both ways out of the loop\<close>
  "processMediaPlaylist fetch delay fuel playlist baseUrl outputFile concurrency tr =
     (let segments = extractSegments playlist baseUrl
      in case batch_loop fetch delay segments concurrency fuel 0 (tr @ [FileOpen outputFile]) of
           None \<Rightarrow> None
         | Some (r, tr') \<Rightarrow> Some (r, tr' @ [FileClose]))"

section \<open>downloadM3U8 and the command line\<close>

fun downloadM3U8 ::
  "(string \<Rightarrow> fetch_outcome) \<Rightarrow> (int \<Rightarrow> nat) \<Rightarrow> nat \<Rightarrow> string \<Rightarrow> string \<Rightarrow> int option
     \<Rightarrow> event list \<Rightarrow> ((js_error + unit) \<times> event list) option" where
  \<comment> \<open>the concurrency argument is \<open>None\<close> when the caller omits it, and the default of the
      parameter then applies. The \<^verbatim>\<open>catch\<close> block logs and rethrows. The fuel bounds the
      chain of master playlists and the batch loop\<close>
  "downloadM3U8 fetch delay 0 url outputFile concurrency_arg tr = None"
| "downloadM3U8 fetch delay (Suc fuel) url outputFile concurrency_arg tr =
     (let concurrency = (case concurrency_arg of None \<Rightarrow> 5 | Some c \<Rightarrow> c);
          tr1 = tr @ [PlaylistFetched url]
      in case fetchText fetch url of
           Inl e \<Rightarrow> Some (Inl e, tr1)
         | Inr mainPlaylist \<Rightarrow>
             if includesStr mainPlaylist STREAM_INF then
               (case extractHighestQualityStream mainPlaylist url of
                  Inl e \<Rightarrow> Some (Inl e, tr1)
                | Inr streamUrl \<Rightarrow>
                    downloadM3U8 fetch delay fuel streamUrl outputFile (Some concurrency) tr1)
             else
               processMediaPlaylist fetch delay fuel mainPlaylist url outputFile concurrency
                 (tr1 @ [EnsureDir outputFile]))"

datatype cli_action = Usage_exit | Invoke string string number

definition cli :: "string list \<Rightarrow> cli_action" where
  \<comment> \<open>the block under \<^verbatim>\<open>import.meta.main\<close>: a string is truthy when it is not empty\<close>
  "cli args =
     (if length args < 2 then Usage_exit
      else Invoke (args ! 0) (args ! 1)
             (case lookup args 2 of
                None \<Rightarrow> Num 10
              | Some a \<Rightarrow> if a \<noteq> [] then parseInt a else Num 10))"

section \<open>The partition of the specification\<close>

text \<open>
  The specification partitions the segment list into consecutive batches of size \<open>C\<close>, the
  last one possibly smaller. This definition follows its words; the theorems compare the
  trace of the loop with it.
\<close>

function chunks :: "nat \<Rightarrow> 'a list \<Rightarrow> 'a list list" where
  "chunks n xs = (if n = 0 \<or> xs = [] then [] else take n xs # chunks n (drop n xs))"
  by pat_completeness auto
termination
  by (relation "measure (\<lambda>(n, xs). length xs)") auto

declare chunks.simps [simp del]

definition ceil_div :: "nat \<Rightarrow> nat \<Rightarrow> nat" where
  \<comment> \<open>the ceiling of \<open>m / c\<close>\<close>
  "ceil_div m c = (m + c - 1) div c"

section \<open>Observations on the transport and on the trace\<close>

definition fetch_succeeds :: "(string \<Rightarrow> fetch_outcome) \<Rightarrow> string \<Rightarrow> bool" where
  \<comment> \<open>\<^verbatim>\<open>downloadSegment(url)\<close> returns data rather than throwing\<close>
  "fetch_succeeds fetch url =
     (case downloadSegment fetch url of Inl e \<Rightarrow> False | Inr data \<Rightarrow> True)"

definition payload :: "(string \<Rightarrow> fetch_outcome) \<Rightarrow> string \<Rightarrow> string" where
  \<comment> \<open>the bytes that \<^verbatim>\<open>downloadSegment(url)\<close> returns\<close>
  "payload fetch url = (case downloadSegment fetch url of Inl e \<Rightarrow> [] | Inr data \<Rightarrow> data)"

definition batch_events :: "(string \<Rightarrow> fetch_outcome) \<Rightarrow> (nat \<times> string) list \<Rightarrow> event list" where
  \<comment> \<open>the events of one batch of indexed URLs whose fetches all succeed: every fetch is
      issued, the batch is joined, every payload is written, all in index order\<close>
  "batch_events fetch b =
     map (\<lambda>(index, url). FetchIssued (int index) url) b
     @ [BatchJoined (length b)]
     @ map (\<lambda>(index, url). FileWrite (int index) (payload fetch url)) b"

definition written :: "event list \<Rightarrow> string list" where
  \<comment> \<open>the buffers written to the file, in the order of the writes\<close>
  "written tr = concat (map (\<lambda>e. case e of FileWrite index data \<Rightarrow> [data] | _ \<Rightarrow> []) tr)"

definition write_indices :: "event list \<Rightarrow> int list" where
  \<comment> \<open>the segment indices of the writes, in the order of the writes\<close>
  "write_indices tr = concat (map (\<lambda>e. case e of FileWrite index data \<Rightarrow> [index] | _ \<Rightarrow> []) tr)"

definition batch_sizes :: "event list \<Rightarrow> nat list" where
  \<comment> \<open>the sizes of the batches that were joined, in order\<close>
  "batch_sizes tr = concat (map (\<lambda>e. case e of BatchJoined n \<Rightarrow> [n] | _ \<Rightarrow> []) tr)"

section \<open>Lemmas on the string helpers\<close>

lemma split_on_not_Nil: "split_on c s \<noteq> []"
  by (induction s) (auto split: list.splits)

lemma split_on_no_sep: "c \<notin> set f \<Longrightarrow> split_on c f = [f]"
  by (induction f) auto

lemma split_on_append_sep:
  "c \<notin> set f \<Longrightarrow> split_on c (d @ c # f) = split_on c d @ [f]"
proof (induction d)
  case Nil
  then show ?case by (simp add: split_on_no_sep)
next
  case (Cons x d)
  then show ?case
    by (cases "split_on c d") (auto simp: split_on_not_Nil)
qed

lemma join_split_on: "join [c] (split_on c s) = s"
proof (induction s)
  case Nil
  show ?case by simp
next
  case (Cons x s)
  show ?case
  proof (cases "x = c")
    case True
    with Cons show ?thesis
      by (cases "split_on c s") (auto simp: split_on_not_Nil)
  next
    case False
    with Cons show ?thesis
      by (cases "split_on c s"; cases "tl (split_on c s)") (auto simp: split_on_not_Nil)
  qed
qed

lemma baseDir_eq:
  assumes "CHR ''/'' \<notin> set f"
  shows "join ''/'' (butlast (split_on (CHR ''/'') (d @ ''/'' @ f))) = d"
  using assms by (simp add: split_on_append_sep join_split_on)

lemma startsWith_append: "startsWith (p @ s) p"
  by (simp add: startsWith_def)

lemma startsWith_Cons: "startsWith s (c # p) \<longleftrightarrow> (\<exists>t. s = c # t \<and> startsWith t p)"
  by (cases s) (auto simp: startsWith_def)

lemma takeWhile_until: "c \<notin> set h \<Longrightarrow> takeWhile (\<lambda>x. x \<noteq> c) (h @ c # p) = h"
  by (induction h) auto

lemma match_domain_http:
  assumes "host \<noteq> []" "CHR ''/'' \<notin> set host"
  shows "match_domain (''http://'' @ host @ ''/'' @ path) = Some (''http://'' @ host)"
  using assms by (simp add: match_domain_def startsWith_def takeWhile_until)

lemma match_domain_https:
  assumes "host \<noteq> []" "CHR ''/'' \<notin> set host"
  shows "match_domain (''https://'' @ host @ ''/'' @ path) = Some (''https://'' @ host)"
  using assms by (simp add: match_domain_def startsWith_def takeWhile_until)

lemma push_segments_eq:
  "push_segments baseUrl lines segments
     = segments @ map (\<lambda>line. resolveUrl line baseUrl) (filter is_segment_line lines)"
  by (induction lines arbitrary: segments) auto

lemma extractSegments_eq:
  "extractSegments playlist baseUrl
     = map (\<lambda>line. resolveUrl line baseUrl)
         (filter is_segment_line (split_on (CHR 0x0A) playlist))"
  by (simp add: extractSegments_def push_segments_eq)

lemma resolveUrl_keeps_reference: "suffix url (resolveUrl url baseUrl)"
  by (auto simp: resolveUrl_def Let_def suffix_def split: option.splits)

subsection \<open>The scan of the master playlist\<close>

lemma scan_lines_end:
  "\<not> i < length lines \<Longrightarrow> scan_lines lines baseUrl i hb sel = Inr (hb, sel)"
  by (subst scan_lines.simps) simp

lemma scan_lines_skip:
  "i < length lines \<Longrightarrow> \<not> is_variant_line (lines ! i)
   \<Longrightarrow> scan_lines lines baseUrl i hb sel = scan_lines lines baseUrl (i + 1) hb sel"
  by (subst scan_lines.simps) (auto simp: is_variant_line_def Let_def split: option.splits)

lemma scan_lines_variant:
  "i < length lines \<Longrightarrow> is_variant_line (lines ! i)
   \<Longrightarrow> scan_lines lines baseUrl i hb sel =
       (if num_gt (bandwidth_of (lines ! i)) hb then
          (case lookup lines (i + 1) of
             None \<Rightarrow> Inl undefined_startsWith
           | Some streamUrl \<Rightarrow>
               scan_lines lines baseUrl (i + 1) (bandwidth_of (lines ! i))
                 (resolveUrl streamUrl baseUrl))
        else scan_lines lines baseUrl (i + 1) hb sel)"
  by (subst scan_lines.simps)
     (auto simp: is_variant_line_def bandwidth_of_def Let_def split: option.splits)

lemma scan_lines_keeps:
  assumes "\<forall>j. k \<le> j \<and> j < length lines \<and> is_variant_line (lines ! j)
             \<longrightarrow> \<not> num_gt (bandwidth_of (lines ! j)) hb"
  shows "scan_lines lines baseUrl k hb sel = Inr (hb, sel)"
  using assms
proof (induction "length lines - k" arbitrary: k)
  case 0
  then show ?case by (simp add: scan_lines_end)
next
  case (Suc n)
  then have k: "k < length lines" by simp
  from Suc have IH: "scan_lines lines baseUrl (k + 1) hb sel = Inr (hb, sel)"
    by (intro Suc.hyps(1)) auto
  show ?case
  proof (cases "is_variant_line (lines ! k)")
    case True
    with Suc.prems k have "\<not> num_gt (bandwidth_of (lines ! k)) hb" by auto
    with True k IH show ?thesis by (simp add: scan_lines_variant)
  next
    case False
    with k IH show ?thesis by (simp add: scan_lines_skip)
  qed
qed

lemma scan_lines_reaches:
  assumes "i < length lines" "is_variant_line (lines ! i)" "k \<le> i"
    and "num_gt (bandwidth_of (lines ! i)) hb"
    and "\<forall>j<i. is_variant_line (lines ! j)
            \<longrightarrow> num_gt (bandwidth_of (lines ! i)) (bandwidth_of (lines ! j))"
  shows "scan_lines lines baseUrl k hb sel =
           (case lookup lines (i + 1) of
              None \<Rightarrow> Inl undefined_startsWith
            | Some streamUrl \<Rightarrow>
                scan_lines lines baseUrl (i + 1) (bandwidth_of (lines ! i))
                  (resolveUrl streamUrl baseUrl))"
  using assms
proof (induction "i - k" arbitrary: k hb sel)
  case 0
  then have "k = i" by simp
  with 0 show ?case by (simp add: scan_lines_variant)
next
  case (Suc n)
  then have k: "k < i" "k < length lines" "k + 1 < length lines" by auto
  show ?case
  proof (cases "is_variant_line (lines ! k) \<and> num_gt (bandwidth_of (lines ! k)) hb")
    case True
    from True k Suc.prems have gt: "num_gt (bandwidth_of (lines ! i)) (bandwidth_of (lines ! k))"
      by auto
    have "scan_lines lines baseUrl k hb sel
          = scan_lines lines baseUrl (k + 1) (bandwidth_of (lines ! k))
              (resolveUrl (lines ! (k + 1)) baseUrl)"
      using True k by (simp add: scan_lines_variant lookup_def)
    also have "\<dots> = (case lookup lines (i + 1) of
              None \<Rightarrow> Inl undefined_startsWith
            | Some streamUrl \<Rightarrow>
                scan_lines lines baseUrl (i + 1) (bandwidth_of (lines ! i))
                  (resolveUrl streamUrl baseUrl))"
      using Suc.hyps(2) Suc.prems k gt by (intro Suc.hyps(1)) auto
    finally show ?thesis .
  next
    case False
    then have "scan_lines lines baseUrl k hb sel = scan_lines lines baseUrl (k + 1) hb sel"
      using k by (cases "is_variant_line (lines ! k)") (auto simp: scan_lines_variant scan_lines_skip)
    also have "\<dots> = (case lookup lines (i + 1) of
              None \<Rightarrow> Inl undefined_startsWith
            | Some streamUrl \<Rightarrow>
                scan_lines lines baseUrl (i + 1) (bandwidth_of (lines ! i))
                  (resolveUrl streamUrl baseUrl))"
      using Suc.hyps(2) Suc.prems k by (intro Suc.hyps(1)) auto
    finally show ?thesis .
  qed
qed

lemma list_all_upt: "list_all P [a..<b] \<Longrightarrow> a \<le> j \<Longrightarrow> j < b \<Longrightarrow> P j"
  by (simp add: list_all_iff)

section \<open>Lemmas on the batch loop\<close>

subsection \<open>slice\<close>

lemma slice_batch:
  assumes "1 \<le> c" "k \<le> length xs"
  shows "slice xs (int k) (int k + c) = take (nat c) (drop k xs)"
proof -
  have "nat (min (int k + c) (int (length xs)) - int k) = min (nat c) (length xs - k)"
    using assms by (auto simp: min_def)
  then show ?thesis
    using assms by (simp add: slice_def Let_def min_absorb1 take_drop min_def)
qed

lemma slice_zero: "slice xs 0 0 = []"
  by (simp add: slice_def)

subsection \<open>enumerate\<close>

lemma map_enumerate_shift:
  "map (\<lambda>(index, x). g (int k + int index) x) (enumerate j xs)
     = map (\<lambda>(index, x). g (int index) x) (enumerate (k + j) xs)"
  by (induction xs arbitrary: j) (auto simp: add.commute add.left_commute)

lemma take_enumerate_eq: "take n (enumerate k xs) = enumerate k (take n xs)"
  by (induction xs arbitrary: n k) (auto simp: take_Cons split: nat.splits)

lemma drop_enumerate_eq: "drop n (enumerate k xs) = enumerate (k + n) (drop n xs)"
  by (induction xs arbitrary: n k) (auto simp: drop_Cons split: nat.splits)

subsection \<open>Promise.all\<close>

lemma first_rejection_None:
  "first_rejection ps = None \<longleftrightarrow> (\<forall>p\<in>set ps. \<exists>v. snd p = Inr v)"
proof (induction ps rule: first_rejection.induct)
  case 1 show ?case by simp
next
  case (2 t v ps) then show ?case by simp
next
  case (3 t e ps) then show ?case by (auto split: option.splits)
qed

lemma first_rejection_Some:
  "first_rejection ps = Some (t, e) \<Longrightarrow> (t, Inl e) \<in> set ps"
proof (induction ps arbitrary: t e rule: first_rejection.induct)
  case 1 then show ?case by simp
next
  case (2 t' v ps) then show ?case by simp
next
  case (3 t' e' ps) then show ?case by (auto split: option.splits if_splits)
qed

lemma promise_all_fulfilled:
  assumes "\<forall>p\<in>set ps. \<exists>v. snd p = Inr v"
  shows "promise_all ps = Inr (map (\<lambda>p. case snd p of Inr v \<Rightarrow> v) ps)"
proof -
  have "first_rejection ps = None" using assms by (simp add: first_rejection_None)
  moreover have "concat (map (\<lambda>(t, r). case r of Inl e \<Rightarrow> [] | Inr v \<Rightarrow> [v]) ps)
                 = map (\<lambda>p. case snd p of Inr v \<Rightarrow> v) ps"
    using assms by (induction ps) (auto split: sum.splits)
  ultimately show ?thesis by (simp add: promise_all_def)
qed

lemma promise_all_rejected:
  assumes "\<exists>p\<in>set ps. \<exists>e. snd p = Inl e"
  shows "\<exists>t e. promise_all ps = Inl e \<and> (t, Inl e) \<in> set ps"
proof -
  have "first_rejection ps \<noteq> None"
  proof
    assume "first_rejection ps = None"
    then have all: "\<forall>p\<in>set ps. \<exists>v. snd p = Inr v" by (simp add: first_rejection_None)
    from assms obtain p e where "p \<in> set ps" "snd p = Inl e" by blast
    with all show False by fastforce
  qed
  then obtain t e where "first_rejection ps = Some (t, e)" by auto
  then show ?thesis
    using first_rejection_Some[of ps t e] by (auto simp: promise_all_def)
qed


subsection \<open>One iteration of the batch loop\<close>

lemma downloadSegment_payload:
  "fetch_succeeds fetch url \<Longrightarrow> downloadSegment fetch url = Inr (payload fetch url)"
  by (simp add: fetch_succeeds_def payload_def split: sum.splits)

lemma batch_promises_fulfilled:
  assumes "\<forall>u\<in>set batch. fetch_succeeds fetch u"
  shows "promise_all (batch_promises fetch delay i batch)
           = Inr (map (\<lambda>(index, u). (i + int index, payload fetch u)) (enumerate 0 batch))"
proof -
  have in_batch: "\<And>index u. (index, u) \<in> set (enumerate 0 batch) \<Longrightarrow> u \<in> set batch"
    by (metis in_set_zipE enumerate_eq_zip)
  have ok: "\<forall>p\<in>set (batch_promises fetch delay i batch). \<exists>v. snd p = Inr v"
    using assms in_batch
    by (auto simp: batch_promises_def Let_def downloadSegment_payload)
  have "map (\<lambda>p. case snd p of Inr v \<Rightarrow> v) (batch_promises fetch delay i batch)
          = map (\<lambda>(index, u). (i + int index, payload fetch u)) (enumerate 0 batch)"
    using assms in_batch
    by (auto simp: batch_promises_def Let_def downloadSegment_payload)
  with promise_all_fulfilled[OF ok] show ?thesis by simp
qed

lemma batch_promises_rejected:
  assumes "\<exists>u\<in>set batch. \<not> fetch_succeeds fetch u"
  shows "\<exists>e u. promise_all (batch_promises fetch delay i batch) = Inl e
               \<and> u \<in> set batch \<and> downloadSegment fetch u = Inl e"
proof -
  from assms obtain u where u: "u \<in> set batch" "\<not> fetch_succeeds fetch u" by blast
  then obtain e0 where e0: "downloadSegment fetch u = Inl e0"
    by (auto simp: fetch_succeeds_def split: sum.splits)
  from u obtain m where m: "m < length batch" "batch ! m = u"
    by (auto simp: in_set_conv_nth)
  then have "(m, u) \<in> set (enumerate 0 batch)"
    by (metis add_0 length_enumerate nth_enumerate_eq nth_mem)
  then have "(delay (i + int m), Inl e0) \<in> set (batch_promises fetch delay i batch)"
    using e0 by (force simp: batch_promises_def Let_def)
  then have "\<exists>p\<in>set (batch_promises fetch delay i batch). \<exists>e. snd p = Inl e"
    by force
  from promise_all_rejected[OF this] obtain t e where
    te: "promise_all (batch_promises fetch delay i batch) = Inl e"
        "(t, Inl e) \<in> set (batch_promises fetch delay i batch)" by blast
  from te(2) obtain index v where iv: "(index, v) \<in> set (enumerate 0 batch)"
      "downloadSegment fetch v = Inl e"
    by (auto simp: batch_promises_def Let_def split: sum.splits)
  then have "v \<in> set batch" by (metis in_set_zipE enumerate_eq_zip)
  with te(1) iv(2) show ?thesis by blast
qed

lemma sort_results_id:
  "sort_key fst (map (\<lambda>(index, u). (i + int index, d u)) (enumerate 0 batch))
     = map (\<lambda>(index, u). (i + int index, d u)) (enumerate 0 batch)"
proof (rule sort_key_id_if_sorted)
  have "map fst (map (\<lambda>(index, u). (i + int index, d u)) (enumerate 0 batch))
          = map ((\<lambda>index. i + int index) \<circ> fst) (enumerate 0 batch)"
    by (simp add: case_prod_unfold comp_def)
  also have "\<dots> = map (\<lambda>index. i + int index) (map fst (enumerate 0 batch))"
    by (simp only: map_map)
  also have "\<dots> = map (\<lambda>index. i + int index) [0..<length batch]"
    by simp
  finally show "sorted (map fst (map (\<lambda>(index, u). (i + int index, d u)) (enumerate 0 batch)))"
    by (simp add: sorted_map sorted_wrt_mono_rel[OF _ sorted_wrt_upt])
qed

lemma batch_trace:
  "batch_issues (int k) batch @ [BatchJoined (length batch)]
     @ map (\<lambda>(index, data). FileWrite index data)
         (map (\<lambda>(index, u). (int k + int index, payload fetch u)) (enumerate 0 batch))
   = batch_events fetch (enumerate k batch)"
proof -
  have 1: "batch_issues (int k) batch = map (\<lambda>(index, url). FetchIssued (int index) url) (enumerate k batch)"
    unfolding batch_issues_def
    using map_enumerate_shift[of "\<lambda>j u. FetchIssued j u" k 0 batch] by simp
  have 2: "map (\<lambda>(index, data). FileWrite index data)
         (map (\<lambda>(index, u). (int k + int index, payload fetch u)) (enumerate 0 batch))
        = map (\<lambda>(index, url). FileWrite (int index) (payload fetch url)) (enumerate k batch)"
    using map_enumerate_shift[of "\<lambda>j u. FileWrite j (payload fetch u)" k 0 batch]
    by (simp add: case_prod_unfold comp_def)
  show ?thesis unfolding batch_events_def 1 2 by simp
qed

lemma batch_loop_done:
  "length segments \<le> k \<Longrightarrow> batch_loop fetch delay segments c fuel (int k) tr = Some (Inr (), tr)"
  by (cases fuel) auto

lemma batch_loop_step_ok:
  assumes "1 \<le> c" "k < length segments"
    and "\<forall>u\<in>set (take (nat c) (drop k segments)). fetch_succeeds fetch u"
  shows "batch_loop fetch delay segments c (Suc fuel) (int k) tr
           = batch_loop fetch delay segments c fuel (int (k + nat c))
               (tr @ batch_events fetch (enumerate k (take (nat c) (drop k segments))))"
proof -
  let ?batch = "take (nat c) (drop k segments)"
  have sl: "slice segments (int k) (int k + c) = ?batch"
    using assms by (simp add: slice_batch)
  have pa: "promise_all (batch_promises fetch delay (int k) ?batch)
           = Inr (map (\<lambda>(index, u). (int k + int index, payload fetch u)) (enumerate 0 ?batch))"
    using assms(3) by (rule batch_promises_fulfilled)
  have idx: "int k + c = int (k + nat c)" using assms(1) by simp
  have "batch_loop fetch delay segments c (Suc fuel) (int k) tr
          = batch_loop fetch delay segments c fuel (int k + c)
              (tr @ (batch_issues (int k) ?batch @ [BatchJoined (length ?batch)]
                 @ map (\<lambda>(index, data). FileWrite index data)
                     (map (\<lambda>(index, u). (int k + int index, payload fetch u)) (enumerate 0 ?batch))))"
    using assms(2) by (simp add: sl pa Let_def sort_results_id)
  then show ?thesis
    unfolding batch_trace idx .
qed

lemma batch_loop_step_fail:
  assumes "1 \<le> c" "k < length segments"
    and "\<exists>u\<in>set (take (nat c) (drop k segments)). \<not> fetch_succeeds fetch u"
  shows "\<exists>e u. batch_loop fetch delay segments c (Suc fuel) (int k) tr
                 = Some (Inl e, tr @ map (\<lambda>(index, url). FetchIssued (int index) url)
                                      (enumerate k (take (nat c) (drop k segments))))
               \<and> u \<in> set (take (nat c) (drop k segments))
               \<and> downloadSegment fetch u = Inl e"
proof -
  let ?batch = "take (nat c) (drop k segments)"
  have sl: "slice segments (int k) (int k + c) = ?batch"
    using assms by (simp add: slice_batch)
  from batch_promises_rejected[OF assms(3), of delay "int k"] obtain e u where
    eu: "promise_all (batch_promises fetch delay (int k) ?batch) = Inl e"
        "u \<in> set ?batch" "downloadSegment fetch u = Inl e" by blast
  have 1: "batch_issues (int k) ?batch = map (\<lambda>(index, url). FetchIssued (int index) url) (enumerate k ?batch)"
    unfolding batch_issues_def
    using map_enumerate_shift[of "\<lambda>j u. FetchIssued j u" k 0 ?batch] by simp
  have "batch_loop fetch delay segments c (Suc fuel) (int k) tr
          = Some (Inl e, tr @ map (\<lambda>(index, url). FetchIssued (int index) url) (enumerate k ?batch))"
    using assms(2) by (simp add: sl eu(1) Let_def 1)
  with eu show ?thesis by blast
qed

subsection \<open>The partition into batches\<close>

lemma chunks_Nil [simp]: "chunks n [] = []"
  by (subst chunks.simps) simp

lemma chunks_step:
  "0 < n \<Longrightarrow> xs \<noteq> [] \<Longrightarrow> chunks n xs = take n xs # chunks n (drop n xs)"
  by (subst chunks.simps) simp

lemma ceil_div_0 [simp]: "ceil_div 0 n = 0"
  by (cases "n = 0") (simp_all add: ceil_div_def)

lemma ceil_div_pos: "0 < n \<Longrightarrow> 0 < m \<Longrightarrow> ceil_div m n = Suc ((m - 1) div n)"
proof -
  assume "0 < n" "0 < m"
  then have "m + n - 1 = (m - 1) + n" by simp
  then have "(m + n - 1) div n = ((m - 1) + n) div n" by (rule arg_cong)
  also have "\<dots> = Suc ((m - 1) div n)" using \<open>0 < n\<close> div_add_self2[of n "m - 1"] by simp
  finally show ?thesis by (simp only: ceil_div_def)
qed

lemma ceil_div_step: "0 < n \<Longrightarrow> 0 < m \<Longrightarrow> ceil_div m n = Suc (ceil_div (m - n) n)"
proof -
  assume n: "0 < n" and m: "0 < m"
  show ?thesis
  proof (cases "n \<le> m")
    case True
    then have "m - n + n - 1 = m - 1" by simp
    then have "ceil_div (m - n) n = (m - 1) div n" by (simp only: ceil_div_def)
    with ceil_div_pos[OF n m] show ?thesis by (simp only:)
  next
    case False
    then have "m - n = 0" "(m - 1) div n = 0" using m by simp_all
    with ceil_div_pos[OF n m] show ?thesis by (simp only: ceil_div_0)
  qed
qed

lemma ceil_div_eq_0: "0 < n \<Longrightarrow> ceil_div m n = 0 \<longleftrightarrow> m = 0"
  by (cases "m = 0") (auto simp: ceil_div_step)


lemma concat_chunks: "0 < n \<Longrightarrow> concat (chunks n xs) = xs"
proof (induction n xs rule: chunks.induct)
  case (1 n xs)
  then show ?case by (cases "xs = []") (auto simp: chunks_step)
qed

lemma length_chunks: "0 < n \<Longrightarrow> length (chunks n xs) = ceil_div (length xs) n"
proof (induction n xs rule: chunks.induct)
  case (1 n xs)
  then show ?case by (cases "xs = []") (auto simp: chunks_step ceil_div_step)
qed

lemma chunks_sizes:
  "0 < n \<Longrightarrow> b \<in> set (chunks n xs) \<Longrightarrow> 0 < length b \<and> length b \<le> n"
proof (induction n xs rule: chunks.induct)
  case (1 n xs)
  then show ?case by (cases "xs = []") (auto simp: chunks_step)
qed

lemma chunks_full_but_last:
  "0 < n \<Longrightarrow> b \<in> set (butlast (chunks n xs)) \<Longrightarrow> length b = n"
proof (induction n xs rule: chunks.induct)
  case (1 n xs)
  show ?case
  proof (cases "xs = []")
    case True
    with 1 show ?thesis by simp
  next
    case False
    show ?thesis
    proof (cases "drop n xs = []")
      case True
      with False 1 show ?thesis by (simp add: chunks_step)
    next
      case d: False
      then have "chunks n (drop n xs) \<noteq> []" using 1(2) by (simp add: chunks_step)
      with 1 False d show ?thesis by (auto simp: chunks_step)
    qed
  qed
qed

lemma concat_take_chunks:
  "0 < n \<Longrightarrow> concat (take b (chunks n xs)) = take (b * n) xs"
proof (induction b arbitrary: xs)
  case 0
  then show ?case by simp
next
  case (Suc b)
  show ?case
  proof (cases "xs = []")
    case True
    then show ?thesis by simp
  next
    case False
    with Suc show ?thesis
      by (simp add: chunks_step take_add[symmetric] add.commute)
  qed
qed

lemma nth_chunks:
  "0 < n \<Longrightarrow> b * n < length xs \<Longrightarrow> chunks n xs ! b = take n (drop (b * n) xs)"
proof (induction b arbitrary: xs)
  case 0
  then show ?case by (cases "xs = []") (auto simp: chunks_step)
next
  case (Suc b)
  then have "xs \<noteq> []" by auto
  moreover from Suc.prems have "b * n < length (drop n xs)" by simp
  then have "chunks n (drop n xs) ! b = take n (drop (b * n) (drop n xs))"
    using Suc.IH Suc.prems(1) by blast
  ultimately show ?case
    using Suc.prems(1) by (simp add: chunks_step add.commute)
qed

subsection \<open>Runs of the batch loop\<close>

lemma chunks_enumerate_step:
  assumes "0 < n" "k < length segments"
  shows "chunks n (enumerate k (drop k segments))
           = enumerate k (take n (drop k segments))
             # chunks n (enumerate (k + n) (drop (k + n) segments))"
proof -
  have "enumerate k (drop k segments) \<noteq> []"
    using assms(2) by (metis length_enumerate length_drop length_0_conv zero_less_diff less_not_refl)
  then show ?thesis
    using assms(1)
    by (simp add: chunks_step take_enumerate_eq drop_enumerate_eq add.commute)
qed

lemma batch_loop_success:
  assumes "1 \<le> c" "\<forall>u\<in>set (drop k segments). fetch_succeeds fetch u"
    and "ceil_div (length segments - k) (nat c) \<le> fuel"
  shows "batch_loop fetch delay segments c fuel (int k) tr
           = Some (Inr (), tr @ concat (map (batch_events fetch)
                                  (chunks (nat c) (enumerate k (drop k segments)))))"
  using assms(2,3)
proof (induction fuel arbitrary: k tr)
  case 0
  with assms(1) have "length segments \<le> k" by (simp add: ceil_div_eq_0)
  then show ?case by (simp add: batch_loop_done)
next
  case (Suc fuel)
  show ?case
  proof (cases "k < length segments")
    case False
    then show ?thesis by (simp add: batch_loop_done)
  next
    case True
    have n: "0 < nat c" using assms(1) by simp
    have ok: "\<forall>u\<in>set (take (nat c) (drop k segments)). fetch_succeeds fetch u"
      using Suc.prems(1) by (meson in_set_takeD)
    have ok': "\<forall>u\<in>set (drop (k + nat c) segments). fetch_succeeds fetch u"
      using Suc.prems(1) by (metis add.commute drop_drop in_set_dropD)
    have fuel: "ceil_div (length segments - (k + nat c)) (nat c) \<le> fuel"
      using Suc.prems(2) True n ceil_div_step[of "nat c" "length segments - k"] by simp
    show ?thesis
      by (simp only: batch_loop_step_ok[OF assms(1) True ok] Suc.IH[OF ok' fuel]
            chunks_enumerate_step[OF n True]) simp
  qed
qed

lemma batch_loop_needs_fuel:
  assumes "1 \<le> c" "\<forall>u\<in>set (drop k segments). fetch_succeeds fetch u"
    and "fuel < ceil_div (length segments - k) (nat c)"
  shows "batch_loop fetch delay segments c fuel (int k) tr = None"
  using assms(2,3)
proof (induction fuel arbitrary: k tr)
  case 0
  then have "k < length segments" by (cases "k < length segments") auto
  then show ?case by simp
next
  case (Suc fuel)
  then have True: "k < length segments" by (cases "k < length segments") auto
  have n: "0 < nat c" using assms(1) by simp
  have ok: "\<forall>u\<in>set (take (nat c) (drop k segments)). fetch_succeeds fetch u"
    using Suc.prems(1) by (meson in_set_takeD)
  have ok': "\<forall>u\<in>set (drop (k + nat c) segments). fetch_succeeds fetch u"
    using Suc.prems(1) by (metis add.commute drop_drop in_set_dropD)
  have fuel: "fuel < ceil_div (length segments - (k + nat c)) (nat c)"
    using Suc.prems(2) True n ceil_div_step[of "nat c" "length segments - k"] by simp
  show ?case
    by (simp only: batch_loop_step_ok[OF assms(1) True ok] Suc.IH[OF ok' fuel])
qed

lemma batch_loop_returns:
  assumes "1 \<le> c" "ceil_div (length segments - k) (nat c) \<le> fuel"
  shows "batch_loop fetch delay segments c fuel (int k) tr \<noteq> None"
  using assms(2)
proof (induction fuel arbitrary: k tr)
  case 0
  with assms(1) have "length segments \<le> k" by (simp add: ceil_div_eq_0)
  then show ?case by (simp add: batch_loop_done)
next
  case (Suc fuel)
  show ?case
  proof (cases "k < length segments")
    case False
    then show ?thesis by (simp add: batch_loop_done)
  next
    case True
    have n: "0 < nat c" using assms(1) by simp
    have fuel: "ceil_div (length segments - (k + nat c)) (nat c) \<le> fuel"
      using Suc.prems True n ceil_div_step[of "nat c" "length segments - k"] by simp
    show ?thesis
    proof (cases "\<forall>u\<in>set (take (nat c) (drop k segments)). fetch_succeeds fetch u")
      case ok: True
      show ?thesis
        by (simp only: batch_loop_step_ok[OF assms(1) True ok]) (rule Suc.IH[OF fuel])
    next
      case False
      then have "\<exists>u\<in>set (take (nat c) (drop k segments)). \<not> fetch_succeeds fetch u" by blast
      from batch_loop_step_fail[OF assms(1) True this, of delay fuel tr]
      show ?thesis by auto
    qed
  qed
qed

lemma batch_loop_zero_concurrency:
  "segments \<noteq> [] \<Longrightarrow> batch_loop fetch delay segments 0 fuel 0 tr = None"
proof (induction fuel arbitrary: tr)
  case 0
  then show ?case by simp
next
  case (Suc fuel)
  have "promise_all (batch_promises fetch delay 0 []) = Inr []"
    by (simp add: batch_promises_def promise_all_def)
  with Suc show ?case
    by (simp add: slice_zero batch_issues_def)
qed

subsection \<open>Projections of the trace\<close>

lemma written_append [simp]: "written (a @ b) = written a @ written b"
  by (simp add: written_def)

lemma write_indices_append [simp]: "write_indices (a @ b) = write_indices a @ write_indices b"
  by (simp add: write_indices_def)

lemma batch_sizes_append [simp]: "batch_sizes (a @ b) = batch_sizes a @ batch_sizes b"
  by (simp add: batch_sizes_def)

lemma written_simps [simp]:
  "written [] = []"
  "written (FileWrite index data # tr) = data # written tr"
  "written (FetchIssued index url # tr) = written tr"
  "written (BatchJoined n # tr) = written tr"
  "written (FileOpen f # tr) = written tr"
  "written (FileClose # tr) = written tr"
  by (simp_all add: written_def)

lemma write_indices_simps [simp]:
  "write_indices [] = []"
  "write_indices (FileWrite index data # tr) = index # write_indices tr"
  "write_indices (FetchIssued index url # tr) = write_indices tr"
  "write_indices (BatchJoined n # tr) = write_indices tr"
  "write_indices (FileOpen f # tr) = write_indices tr"
  "write_indices (FileClose # tr) = write_indices tr"
  by (simp_all add: write_indices_def)

lemma batch_sizes_simps [simp]:
  "batch_sizes [] = []"
  "batch_sizes (FileWrite index data # tr) = batch_sizes tr"
  "batch_sizes (FetchIssued index url # tr) = batch_sizes tr"
  "batch_sizes (BatchJoined n # tr) = n # batch_sizes tr"
  "batch_sizes (FileOpen f # tr) = batch_sizes tr"
  "batch_sizes (FileClose # tr) = batch_sizes tr"
  by (simp_all add: batch_sizes_def)

lemma written_issues [simp]:
  "written (map (\<lambda>(index, url). FetchIssued (int index) url) b) = []"
  by (induction b) auto

lemma write_indices_issues [simp]:
  "write_indices (map (\<lambda>(index, url). FetchIssued (int index) url) b) = []"
  by (induction b) auto

lemma batch_sizes_issues [simp]:
  "batch_sizes (map (\<lambda>(index, url). FetchIssued (int index) url) b) = []"
  by (induction b) auto

lemma written_writes [simp]:
  "written (map (\<lambda>(index, url). FileWrite (int index) (payload fetch url)) b)
     = map (\<lambda>(index, url). payload fetch url) b"
  by (induction b) auto

lemma write_indices_writes [simp]:
  "write_indices (map (\<lambda>(index, url). FileWrite (int index) (payload fetch url)) b)
     = map (\<lambda>(index, url). int index) b"
  by (induction b) auto

lemma batch_sizes_writes [simp]:
  "batch_sizes (map (\<lambda>(index, url). FileWrite (int index) (payload fetch url)) b) = []"
  by (induction b) auto

lemma written_batches:
  "written (concat (map (batch_events fetch) bs))
     = map (\<lambda>(index, url). payload fetch url) (concat bs)"
  by (induction bs) (auto simp: batch_events_def)

lemma write_indices_batches:
  "write_indices (concat (map (batch_events fetch) bs))
     = map (\<lambda>(index, url). int index) (concat bs)"
  by (induction bs) (auto simp: batch_events_def)

lemma batch_sizes_batches:
  "batch_sizes (concat (map (batch_events fetch) bs)) = map length bs"
  by (induction bs) (auto simp: batch_events_def)

lemma map_payload_enumerate:
  "map (\<lambda>(index, url). payload fetch url) (enumerate k xs) = map (payload fetch) xs"
proof -
  have "map (\<lambda>(index, url). payload fetch url) (enumerate k xs)
          = map (payload fetch \<circ> snd) (enumerate k xs)"
    by (simp add: case_prod_unfold comp_def)
  also have "\<dots> = map (payload fetch) (map snd (enumerate k xs))"
    by (simp only: map_map)
  finally show ?thesis by simp
qed

lemma map_index_enumerate:
  "map (\<lambda>(index, url). int index) (enumerate k xs) = map int [k..<k + length xs]"
proof -
  have "map (\<lambda>(index, url). int index) (enumerate k xs)
          = map (int \<circ> fst) (enumerate k xs)"
    by (simp add: case_prod_unfold comp_def)
  also have "\<dots> = map int (map fst (enumerate k xs))"
    by (simp only: map_map)
  finally show ?thesis by simp
qed

subsection \<open>A run of full batches\<close>

lemma batch_loop_run:
  assumes "1 \<le> c" "k + b * nat c \<le> length segments"
    and "\<forall>u\<in>set (take (b * nat c) (drop k segments)). fetch_succeeds fetch u"
  shows "batch_loop fetch delay segments c (b + fuel) (int k) tr
           = batch_loop fetch delay segments c fuel (int (k + b * nat c))
               (tr @ concat (map (batch_events fetch)
                        (take b (chunks (nat c) (enumerate k (drop k segments))))))"
  using assms(2,3)
proof (induction b arbitrary: k tr)
  case 0
  then show ?case by simp
next
  case (Suc b)
  have n: "0 < nat c" using assms(1) by simp
  with Suc.prems(1) have k: "k < length segments" by simp
  have split: "take (Suc b * nat c) (drop k segments)
                 = take (nat c) (drop k segments) @ take (b * nat c) (drop (k + nat c) segments)"
    by (simp add: take_add add.commute)
  have ok: "\<forall>u\<in>set (take (nat c) (drop k segments)). fetch_succeeds fetch u"
    using Suc.prems(2) unfolding split by simp
  have ok': "\<forall>u\<in>set (take (b * nat c) (drop (k + nat c) segments)). fetch_succeeds fetch u"
    using Suc.prems(2) unfolding split by simp
  have le: "k + nat c + b * nat c \<le> length segments"
    using Suc.prems(1) by simp
  have "batch_loop fetch delay segments c (Suc b + fuel) (int k) tr
          = batch_loop fetch delay segments c (b + fuel) (int (k + nat c))
              (tr @ batch_events fetch (enumerate k (take (nat c) (drop k segments))))"
    using batch_loop_step_ok[OF assms(1) k ok] by simp
  also have "\<dots> = batch_loop fetch delay segments c fuel (int (k + nat c + b * nat c))
              ((tr @ batch_events fetch (enumerate k (take (nat c) (drop k segments))))
               @ concat (map (batch_events fetch)
                   (take b (chunks (nat c) (enumerate (k + nat c) (drop (k + nat c) segments))))))"
    by (rule Suc.IH[OF le ok'])
  finally show ?case
    by (simp add: chunks_enumerate_step[OF n k] add.assoc)
qed

subsection \<open>Whole runs of processMediaPlaylist\<close>

lemma processMediaPlaylist_success:
  assumes "1 \<le> c" "segments = extractSegments playlist baseUrl"
    and "\<forall>u\<in>set segments. fetch_succeeds fetch u"
    and "ceil_div (length segments) (nat c) \<le> fuel"
  shows "processMediaPlaylist fetch delay fuel playlist baseUrl outputFile c tr
           = Some (Inr (), tr @ [FileOpen outputFile]
                     @ concat (map (batch_events fetch) (chunks (nat c) (enumerate 0 segments)))
                     @ [FileClose])"
proof -
  have "batch_loop fetch delay segments c fuel (int 0) (tr @ [FileOpen outputFile])
          = Some (Inr (), (tr @ [FileOpen outputFile])
                    @ concat (map (batch_events fetch)
                        (chunks (nat c) (enumerate 0 (drop 0 segments)))))"
    using assms by (intro batch_loop_success) simp_all
  then show ?thesis
    using assms(2) by (simp add: processMediaPlaylist_def)
qed

lemma chunks_5_by_2: "length xs = 5 \<Longrightarrow> map length (chunks 2 xs) = [2, 2, 1]"
proof -
  assume len: "length xs = 5"
  then have 1: "xs \<noteq> []" by auto
  from len have 2: "drop 2 xs \<noteq> []" by simp
  from len have 3: "drop 2 (drop 2 xs) \<noteq> []" by simp
  from len have 4: "drop 2 (drop 2 (drop 2 xs)) = []" by simp
  have "chunks 2 xs = [take 2 xs, take 2 (drop 2 xs), take 2 (drop 2 (drop 2 xs))]"
    by (simp only: chunks_step[OF _ 1] chunks_step[OF _ 2] chunks_step[OF _ 3] 4 chunks_Nil
          zero_less_numeral)
  then show ?thesis using len by simp
qed

lemma fetch_issued_in_batches:
  assumes "FetchIssued (int j) u \<in> set (concat (map (batch_events fetch) bs))"
  shows "(j, u) \<in> set (concat bs)"
proof -
  have "\<And>x. FetchIssued x u \<in> set (concat (map (batch_events fetch) bs))
          \<Longrightarrow> \<exists>index. x = int index \<and> (index, u) \<in> set (concat bs)"
    by (induction bs) (auto simp: batch_events_def)
  from this[OF assms] obtain index where
    "int j = int index" "(index, u) \<in> set (concat bs)" by blast
  then show ?thesis by simp
qed

lemma file_write_in_batches:
  "(index, u) \<in> set (concat bs)
     \<Longrightarrow> FileWrite (int index) (payload fetch u) \<in> set (concat (map (batch_events fetch) bs))"
  by (induction bs) (force simp: batch_events_def)+

lemma prefix_before_first:
  assumes "A @ B = pre @ x # post" "x \<notin> set A"
  shows "\<exists>r. pre = A @ r"
proof -
  from assms(1) consider us where "A = pre @ us" "us @ B = x # post"
    | us where "A @ us = pre" "B = us @ x # post"
    by (auto simp: append_eq_append_conv2)
  then show ?thesis
  proof cases
    case 1
    with assms(2) have "us = []" by (cases us) auto
    with 1 show ?thesis by simp
  next
    case 2
    then show ?thesis by auto
  qed
qed

lemma in_take_enumerate:
  "(i, u) \<in> set (take m (enumerate 0 xs)) \<longleftrightarrow> i < m \<and> i < length xs \<and> xs ! i = u"
  by (auto simp: take_enumerate_eq in_set_enumerate_eq)

lemma concat_map_take_drop:
  "concat (map f bs) = concat (map f (take b bs)) @ concat (map f (drop b bs))"
  by (metis append_take_drop_id concat_append map_append)

lemma index_in_chunks:
  assumes "0 < n" "(j, u) \<in> set (concat (chunks n (enumerate 0 segments)))"
  shows "j < length segments"
  using assms by (simp add: concat_chunks in_set_enumerate_eq)

lemma index_in_take_chunks:
  assumes "0 < n" "(j, u) \<in> set (concat (take b (chunks n (enumerate 0 segments))))"
  shows "j < b * n"
  using assms by (simp add: concat_take_chunks in_take_enumerate)

lemma take_chunks_has_index:
  assumes "0 < n" "i < b * n" "i < length segments"
  shows "(i, segments ! i) \<in> set (concat (take b (chunks n (enumerate 0 segments))))"
  using assms by (simp add: concat_take_chunks in_take_enumerate)

lemma barrier:
  assumes n: "0 < n"
    and T: "concat (map (batch_events fetch) (chunks n (enumerate 0 segments)))
              = pre @ FetchIssued (int j) u # post"
    and i: "i < (j div n) * n"
  shows "FileWrite (int i) (payload fetch (segments ! i)) \<in> set pre"
proof -
  define bs where "bs = chunks n (enumerate 0 segments)"
  define b where "b = j div n"
  define A where "A = concat (map (batch_events fetch) (take b bs))"
  define B where "B = concat (map (batch_events fetch) (drop b bs))"
  have bj: "b * n \<le> j" unfolding b_def by simp
  have ib: "i < b * n" using i unfolding b_def .
  have AB: "concat (map (batch_events fetch) bs) = A @ B"
    unfolding A_def B_def by (rule concat_map_take_drop)
  have split: "A @ B = pre @ FetchIssued (int j) u # post"
    unfolding AB[symmetric] bs_def by (rule T)
  have "FetchIssued (int j) u \<in> set (A @ B)"
    unfolding split by simp
  then have "FetchIssued (int j) u \<in> set (concat (map (batch_events fetch) bs))"
    unfolding AB .
  then have "(j, u) \<in> set (concat bs)" by (rule fetch_issued_in_batches)
  then have j: "j < length segments"
    unfolding bs_def by (rule index_in_chunks[OF n])
  have notA: "FetchIssued (int j) u \<notin> set A"
  proof
    assume "FetchIssued (int j) u \<in> set A"
    then have "(j, u) \<in> set (concat (take b bs))"
      unfolding A_def by (rule fetch_issued_in_batches)
    then have "j < b * n"
      unfolding bs_def by (rule index_in_take_chunks[OF n])
    with bj show False by linarith
  qed
  from prefix_before_first[OF split notA] obtain r where pre: "pre = A @ r" by blast
  from ib bj have "i < j" by (rule less_le_trans)
  from this j have "i < length segments" by (rule less_trans)
  with n ib have "(i, segments ! i) \<in> set (concat (take b bs))"
    unfolding bs_def by (rule take_chunks_has_index)
  then have "FileWrite (int i) (payload fetch (segments ! i)) \<in> set A"
    unfolding A_def by (rule file_write_in_batches)
  then show ?thesis unfolding pre by simp
qed

lemma downloadSegment_error_shape:
  assumes "downloadSegment fetch u = Inl e"
  shows "case fetch u of
           Rejected e' \<Rightarrow> e = e'
         | Response status statusText body \<Rightarrow>
             \<not> response_ok status
             \<and> e = JsError ''Error''
                   (''Failed to fetch segment '' @ u @ '': '' @ show_nat status @ '' '' @ statusText)"
  using assms by (auto simp: downloadSegment_def split: fetch_outcome.splits if_splits)

lemma processMediaPlaylist_failure:
  assumes "1 \<le> c" "segments = extractSegments playlist baseUrl"
    and "b * nat c < length segments"
    and "\<forall>u\<in>set (take (b * nat c) segments). fetch_succeeds fetch u"
    and "\<exists>u\<in>set (take (nat c) (drop (b * nat c) segments)). \<not> fetch_succeeds fetch u"
    and "b < fuel"
  shows "\<exists>e u. processMediaPlaylist fetch delay fuel playlist baseUrl outputFile c tr
                 = Some (Inl e, tr @ [FileOpen outputFile]
                      @ concat (map (batch_events fetch)
                          (take b (chunks (nat c) (enumerate 0 segments))))
                      @ map (\<lambda>(index, url). FetchIssued (int index) url)
                          (enumerate (b * nat c) (take (nat c) (drop (b * nat c) segments)))
                      @ [FileClose])
               \<and> u \<in> set (take (nat c) (drop (b * nat c) segments))
               \<and> downloadSegment fetch u = Inl e"
proof -
  from assms(6) obtain f where fuel: "fuel = b + Suc f"
    by (metis add_Suc_right less_iff_Suc_add)
  have le: "0 + b * nat c \<le> length segments" using assms(3) by simp
  have ok: "\<forall>u\<in>set (take (b * nat c) (drop 0 segments)). fetch_succeeds fetch u"
    using assms(4) by simp
  define tr1 where "tr1 = (tr @ [FileOpen outputFile])
                     @ concat (map (batch_events fetch)
                         (take b (chunks (nat c) (enumerate 0 (drop 0 segments)))))"
  have run: "batch_loop fetch delay segments c (b + Suc f) (int 0) (tr @ [FileOpen outputFile])
          = batch_loop fetch delay segments c (Suc f) (int (0 + b * nat c)) tr1"
    unfolding tr1_def by (rule batch_loop_run[OF assms(1) le ok])
  from batch_loop_step_fail[OF assms(1) assms(3) assms(5), of delay f tr1] obtain e u where
    eu: "batch_loop fetch delay segments c (Suc f) (int (b * nat c)) tr1
           = Some (Inl e, tr1 @ map (\<lambda>(index, url). FetchIssued (int index) url)
                     (enumerate (b * nat c) (take (nat c) (drop (b * nat c) segments))))"
        "u \<in> set (take (nat c) (drop (b * nat c) segments))"
        "downloadSegment fetch u = Inl e" by blast
  have "processMediaPlaylist fetch delay fuel playlist baseUrl outputFile c tr
          = Some (Inl e, (tr1 @ map (\<lambda>(index, url). FetchIssued (int index) url)
                     (enumerate (b * nat c) (take (nat c) (drop (b * nat c) segments))))
                   @ [FileClose])"
    using run eu(1) unfolding fuel processMediaPlaylist_def assms(2)[symmetric] by simp
  then have "processMediaPlaylist fetch delay fuel playlist baseUrl outputFile c tr
                 = Some (Inl e, tr @ [FileOpen outputFile]
                      @ concat (map (batch_events fetch)
                          (take b (chunks (nat c) (enumerate 0 segments))))
                      @ map (\<lambda>(index, url). FetchIssued (int index) url)
                          (enumerate (b * nat c) (take (nat c) (drop (b * nat c) segments)))
                      @ [FileClose])"
    unfolding tr1_def by simp
  with eu(2,3) show ?thesis by blast
qed

lemma downloadM3U8_media:
  assumes "fetchText fetch url = Inr playlist" "\<not> includesStr playlist STREAM_INF"
  shows "downloadM3U8 fetch delay (Suc fuel) url outputFile (Some c) tr
           = processMediaPlaylist fetch delay fuel playlist url outputFile c
               (tr @ [PlaylistFetched url, EnsureDir outputFile])"
  using assms by simp

section \<open>The URL resolver\<close>

text \<open>
  C5. The three test vectors of the specification hold. For a base URL
  \<open>scheme @ host @ ''/'' @ path\<close> with scheme \<^verbatim>\<open>http://\<close> or \<^verbatim>\<open>https://\<close> and a non-empty
  host without \<^verbatim>\<open>/\<close>, written also as \<open>dir @ ''/'' @ file\<close> where \<open>file\<close> (what follows
  the last \<^verbatim>\<open>/\<close>) has no \<^verbatim>\<open>/\<close>: a reference that begins with \<^verbatim>\<open>http://\<close> or
  \<^verbatim>\<open>https://\<close> is returned unchanged; a reference that begins with \<^verbatim>\<open>/\<close> gives the
  scheme and host of the base followed by the reference; any other reference gives the base
  without its last segment (\<open>dir\<close>), then \<^verbatim>\<open>/\<close>, then the reference.
\<close>

theorem resolveUrl_three_cases:
  "resolveUrl ''seg1.ts'' ''http://h/dir/a.m3u8'' = ''http://h/dir/seg1.ts''
   \<and> resolveUrl ''/x/seg1.ts'' ''http://h/dir/a.m3u8'' = ''http://h/x/seg1.ts''
   \<and> resolveUrl ''http://other/s.ts'' ''http://h/dir/a.m3u8'' = ''http://other/s.ts''
   \<and> ((scheme = ''http://'' \<or> scheme = ''https://'') \<and> host \<noteq> [] \<and> CHR ''/'' \<notin> set host
        \<and> baseUrl = scheme @ host @ ''/'' @ path
        \<and> baseUrl = dir @ ''/'' @ file \<and> CHR ''/'' \<notin> set file
      \<longrightarrow> resolveUrl reference baseUrl =
            (if startsWith reference ''http://'' \<or> startsWith reference ''https://''
             then reference
             else if startsWith reference ''/'' then scheme @ host @ reference
             else dir @ ''/'' @ reference))"
proof (intro conjI impI)
  show "resolveUrl ''seg1.ts'' ''http://h/dir/a.m3u8'' = ''http://h/dir/seg1.ts''"
    by code_simp
  show "resolveUrl ''/x/seg1.ts'' ''http://h/dir/a.m3u8'' = ''http://h/x/seg1.ts''"
    by code_simp
  show "resolveUrl ''http://other/s.ts'' ''http://h/dir/a.m3u8'' = ''http://other/s.ts''"
    by code_simp
next
  assume a: "(scheme = ''http://'' \<or> scheme = ''https://'') \<and> host \<noteq> [] \<and> CHR ''/'' \<notin> set host
        \<and> baseUrl = scheme @ host @ ''/'' @ path
        \<and> baseUrl = dir @ ''/'' @ file \<and> CHR ''/'' \<notin> set file"
  then have dom: "match_domain baseUrl = Some (scheme @ host)"
    using match_domain_http[of host path] match_domain_https[of host path] by auto
  from a have b: "baseUrl = dir @ ''/'' @ file" and f: "CHR ''/'' \<notin> set file"
    by blast+
  have dir: "join ''/'' (butlast (split_on (CHR ''/'') baseUrl)) = dir"
    unfolding b using f by (rule baseDir_eq)
  show "resolveUrl reference baseUrl =
            (if startsWith reference ''http://'' \<or> startsWith reference ''https://''
             then reference
             else if startsWith reference ''/'' then scheme @ host @ reference
             else dir @ ''/'' @ reference)"
    unfolding resolveUrl_def Let_def dom dir by simp
qed

theorem resolveUrl_three_cases_witness:
  "((''https://'' = ''http://'' \<or> ''https://'' = ''https://'') \<and> ''cdn.example'' \<noteq> []
      \<and> CHR ''/'' \<notin> set ''cdn.example''
      \<and> ''https://cdn.example/live/hd/index.m3u8'' = ''https://'' @ ''cdn.example'' @ ''/'' @ ''live/hd/index.m3u8''
      \<and> ''https://cdn.example/live/hd/index.m3u8'' = ''https://cdn.example/live/hd'' @ ''/'' @ ''index.m3u8''
      \<and> CHR ''/'' \<notin> set ''index.m3u8'')
   \<and> resolveUrl ''/root/seg.ts'' ''https://cdn.example/live/hd/index.m3u8''
       = ''https://cdn.example/root/seg.ts''"
  using resolveUrl_three_cases[of "''https://''" "''cdn.example''"
          "''https://cdn.example/live/hd/index.m3u8''" "''live/hd/index.m3u8''"
          "''https://cdn.example/live/hd''" "''index.m3u8''" "''/root/seg.ts''"]
  by (simp add: startsWith_def)

section \<open>Variant selection\<close>

text \<open>
  In the statements below \<open>lines\<close> is the playlist split at line feeds, a variant line is a
  line that contains the stream-info tag and a parseable BANDWIDTH attribute, and the URI of
  the variant on line \<open>i\<close> is line \<open>i + 1\<close>.
\<close>




text \<open>
  C3, as the code has it. In a master playlist where no variant line is followed by a line,
  the selection does not fail with an error of its own: it returns the empty string, unless
  the last line is a variant line with a positive bandwidth, where the read of the missing
  line makes \<^verbatim>\<open>resolveUrl\<close> throw a TypeError (see C4).
\<close>

theorem no_variant_returns_empty:
  assumes "lines = split_on (CHR 0x0A) playlist"
    and "includesStr playlist STREAM_INF"
    and "\<forall>j. j + 1 < length lines \<longrightarrow> \<not> is_variant_line (lines ! j)"
  shows "extractHighestQualityStream playlist baseUrl =
           (if is_variant_line (last lines) \<and> num_gt (bandwidth_of (last lines)) (Num 0)
            then Inl undefined_startsWith else Inr [])"
proof -
  have ne: "lines \<noteq> []" using assms(1) by (simp add: split_on_not_Nil)
  then have last: "last lines = lines ! (length lines - 1)" by (simp add: last_conv_nth)
  show ?thesis
  proof (cases "is_variant_line (last lines) \<and> num_gt (bandwidth_of (last lines)) (Num 0)")
    case True
    have "scan_lines lines baseUrl 0 (Num 0) [] = Inl undefined_startsWith"
      using scan_lines_reaches[of "length lines - 1" lines 0 "Num 0" baseUrl "[]"] True ne last assms(3)
      by (simp add: lookup_def)
    with True assms(1) show ?thesis by (simp add: extractHighestQualityStream_def)
  next
    case False
    have "\<forall>j. 0 \<le> j \<and> j < length lines \<and> is_variant_line (lines ! j)
             \<longrightarrow> \<not> num_gt (bandwidth_of (lines ! j)) (Num 0)"
    proof (intro allI impI)
      fix j assume j: "0 \<le> j \<and> j < length lines \<and> is_variant_line (lines ! j)"
      with assms(3) have "\<not> j + 1 < length lines" by blast
      with j have "j = length lines - 1" by linarith
      with j False last show "\<not> num_gt (bandwidth_of (lines ! j)) (Num 0)" by simp
    qed
    then have "scan_lines lines baseUrl 0 (Num 0) [] = Inr (Num 0, [])"
      by (rule scan_lines_keeps)
    with False assms(1) show ?thesis by (simp add: extractHighestQualityStream_def)
  qed
qed

theorem no_variant_returns_empty_witness:
  "extractHighestQualityStream
     ''#EXTM3U\<newline>#EXT-X-STREAM-INF:RESOLUTION=640x360\<newline>low.m3u8\<newline>''
     ''http://h/dir/master.m3u8'' = Inr []"
proof -
  define pl where "pl = ''#EXTM3U\<newline>#EXT-X-STREAM-INF:RESOLUTION=640x360\<newline>low.m3u8\<newline>''"
  define lines where
    "lines = [''#EXTM3U'', ''#EXT-X-STREAM-INF:RESOLUTION=640x360'', ''low.m3u8'', [] :: string]"
  have h1: "lines = split_on (CHR 0x0A) pl" unfolding lines_def pl_def by code_simp
  have h2: "includesStr pl STREAM_INF" unfolding pl_def by code_simp
  have len: "length lines = 4" unfolding lines_def by code_simp
  have a3: "list_all (\<lambda>j. \<not> is_variant_line (lines ! j)) [0..<3]"
    unfolding lines_def by code_simp
  have h3: "\<forall>j. j + 1 < length lines \<longrightarrow> \<not> is_variant_line (lines ! j)"
    unfolding len using list_all_upt[OF a3] by simp
  have "\<not> (is_variant_line (last lines) \<and> num_gt (bandwidth_of (last lines)) (Num 0))"
    unfolding lines_def by code_simp
  with no_variant_returns_empty[OF h1 h2 h3, of "''http://h/dir/master.m3u8''"]
  show ?thesis unfolding pl_def by (simp only: if_False)
qed

text \<open>
  C3 as stated fails: with a stream-info tag that has no BANDWIDTH attribute the selection
  returns a value, the empty string.
\<close>

theorem no_variant_returns_a_value:
  "includesStr ''#EXTM3U\<newline>#EXT-X-STREAM-INF:RESOLUTION=640x360\<newline>low.m3u8\<newline>'' STREAM_INF
   \<and> match_bandwidth ''#EXT-X-STREAM-INF:RESOLUTION=640x360'' = None
   \<and> extractHighestQualityStream
       ''#EXTM3U\<newline>#EXT-X-STREAM-INF:RESOLUTION=640x360\<newline>low.m3u8\<newline>''
       ''http://h/dir/master.m3u8'' = Inr []"
  by code_simp

text \<open>
  C4, as the code has it. When the last line is a variant line whose bandwidth is positive
  and greater than that of every earlier variant (it exceeds the running maximum), the
  selection fails: \<^verbatim>\<open>lines[i + 1]\<close> is \<^verbatim>\<open>undefined\<close> and \<^verbatim>\<open>resolveUrl\<close>
  throws a TypeError.
\<close>

theorem tag_on_last_line_throws_TypeError:
  assumes "lines = split_on (CHR 0x0A) playlist"
    and "is_variant_line (last lines)"
    and "num_gt (bandwidth_of (last lines)) (Num 0)"
    and "\<forall>j. j + 1 < length lines \<and> is_variant_line (lines ! j)
            \<longrightarrow> num_gt (bandwidth_of (last lines)) (bandwidth_of (lines ! j))"
  shows "extractHighestQualityStream playlist baseUrl = Inl undefined_startsWith
         \<and> err_name undefined_startsWith = ''TypeError''"
proof -
  have ne: "lines \<noteq> []" using assms(1) by (simp add: split_on_not_Nil)
  then have last: "last lines = lines ! (length lines - 1)" by (simp add: last_conv_nth)
  have "scan_lines lines baseUrl 0 (Num 0) [] = Inl undefined_startsWith"
    using scan_lines_reaches[of "length lines - 1" lines 0 "Num 0" baseUrl "[]"] ne last assms(2,3,4)
    by (simp add: lookup_def)
  with assms(1) show ?thesis
    by (simp add: extractHighestQualityStream_def undefined_startsWith_def)
qed

theorem tag_on_last_line_throws_TypeError_witness:
  "extractHighestQualityStream
     ''#EXTM3U\<newline>#EXT-X-STREAM-INF:BANDWIDTH=100\<newline>low.m3u8\<newline>#EXT-X-STREAM-INF:BANDWIDTH=300''
     ''http://h/dir/master.m3u8''
   = Inl (JsError ''TypeError'' ''Cannot read properties of undefined (reading 'startsWith')'')"
proof -
  define pl where "pl = ''#EXTM3U\<newline>#EXT-X-STREAM-INF:BANDWIDTH=100\<newline>low.m3u8\<newline>#EXT-X-STREAM-INF:BANDWIDTH=300''"
  define lines where "lines = [''#EXTM3U'', ''#EXT-X-STREAM-INF:BANDWIDTH=100'', ''low.m3u8'',
                 ''#EXT-X-STREAM-INF:BANDWIDTH=300'']"
  have h1: "lines = split_on (CHR 0x0A) pl" unfolding lines_def pl_def by code_simp
  have len: "length lines = 4" unfolding lines_def by code_simp
  have h2: "is_variant_line (last lines)" unfolding lines_def by code_simp
  have h3: "num_gt (bandwidth_of (last lines)) (Num 0)" unfolding lines_def by code_simp
  have a4: "list_all (\<lambda>j. is_variant_line (lines ! j)
            \<longrightarrow> num_gt (bandwidth_of (last lines)) (bandwidth_of (lines ! j))) [0..<3]"
    unfolding lines_def by code_simp
  have h4: "\<forall>j. j + 1 < length lines \<and> is_variant_line (lines ! j)
            \<longrightarrow> num_gt (bandwidth_of (last lines)) (bandwidth_of (lines ! j))"
    unfolding len using list_all_upt[OF a4] by simp
  from tag_on_last_line_throws_TypeError[OF h1 h2 h3 h4, of "''http://h/dir/master.m3u8''"]
  show ?thesis unfolding pl_def by (simp only: undefined_startsWith_def)
qed

text \<open>
  C4 as stated fails: the error of such a playlist is a TypeError, not a
  MalformedPlaylistError.
\<close>

theorem tag_on_last_line_error_is_TypeError:
  "extractHighestQualityStream ''#EXTM3U\<newline>#EXT-X-STREAM-INF:BANDWIDTH=1280000''
     ''http://h/dir/master.m3u8''
   = Inl (JsError ''TypeError'' ''Cannot read properties of undefined (reading 'startsWith')'')"
  by code_simp

section \<open>Segment extraction keeps the raw line\<close>

text \<open>
  C9. The segment list is the list of the lines that do not start with \<^verbatim>\<open>#\<close> and are
  not empty after trimming, each resolved as it stands, untrimmed. So a selected line
  \<open>body @ ws\<close> gives a segment URL that ends with \<open>ws\<close>, whatever the trailing characters
  \<open>ws\<close> are: in particular the carriage return of a CRLF line ending stays in the URL.
\<close>

theorem segments_resolve_untrimmed_lines:
  "extractSegments playlist baseUrl
     = map (\<lambda>line. resolveUrl line baseUrl)
         (filter (\<lambda>line. \<not> startsWith line ''#'' \<and> length (trim line) > 0)
            (split_on (CHR 0x0A) playlist))
   \<and> (body @ ws \<in> set (split_on (CHR 0x0A) playlist)
        \<and> \<not> startsWith (body @ ws) ''#'' \<and> length (trim (body @ ws)) > 0
      \<longrightarrow> resolveUrl (body @ ws) baseUrl \<in> set (extractSegments playlist baseUrl)
          \<and> suffix ws (resolveUrl (body @ ws) baseUrl))"
proof (intro conjI impI)
  show "extractSegments playlist baseUrl
     = map (\<lambda>line. resolveUrl line baseUrl)
         (filter (\<lambda>line. \<not> startsWith line ''#'' \<and> length (trim line) > 0)
            (split_on (CHR 0x0A) playlist))"
    using extractSegments_eq[of playlist baseUrl]
    by (simp add: is_segment_line_def[abs_def])
next
  assume a: "body @ ws \<in> set (split_on (CHR 0x0A) playlist)
        \<and> \<not> startsWith (body @ ws) ''#'' \<and> length (trim (body @ ws)) > 0"
  then have "is_segment_line (body @ ws)" by (simp add: is_segment_line_def)
  with a show "resolveUrl (body @ ws) baseUrl \<in> set (extractSegments playlist baseUrl)"
    by (simp add: extractSegments_eq)
next
  have "suffix (body @ ws) (resolveUrl (body @ ws) baseUrl)"
    by (rule resolveUrl_keeps_reference)
  then show "suffix ws (resolveUrl (body @ ws) baseUrl)"
    by (auto simp: suffix_def)
qed

theorem segments_resolve_untrimmed_lines_witness:
  "(''seg1.ts'' @ [CHR 0x0D]
       \<in> set (split_on (CHR 0x0A) (''#EXTM3U'' @ [CHR 0x0D, CHR 0x0A] @ ''seg1.ts'' @ [CHR 0x0D, CHR 0x0A]))
     \<and> \<not> startsWith (''seg1.ts'' @ [CHR 0x0D]) ''#''
     \<and> length (trim (''seg1.ts'' @ [CHR 0x0D])) > 0)
   \<and> extractSegments (''#EXTM3U'' @ [CHR 0x0D, CHR 0x0A] @ ''seg1.ts'' @ [CHR 0x0D, CHR 0x0A])
        ''http://h/dir/a.m3u8''
       = [''http://h/dir/seg1.ts'' @ [CHR 0x0D]]
   \<and> suffix [CHR 0x0D] (resolveUrl (''seg1.ts'' @ [CHR 0x0D]) ''http://h/dir/a.m3u8'')"
  using segments_resolve_untrimmed_lines[of
          "''#EXTM3U'' @ [CHR 0x0D, CHR 0x0A] @ ''seg1.ts'' @ [CHR 0x0D, CHR 0x0A]"
          "''http://h/dir/a.m3u8''" "''seg1.ts''" "[CHR 0x0D]"]
  by code_simp

section \<open>The batched, ordered downloader\<close>

text \<open>
  In the statements below \<open>segments\<close> is the segment list of the playlist, \<open>fetch\<close> is
  any transport, \<open>delay\<close> is any assignment of settle times to the fetches (any completion
  order), and \<open>fuel\<close> bounds the iterations of the batch loop. The concurrency is at
  least 1, as the specification requires of its downloader.
\<close>

text \<open>
  C1. When every segment fetch succeeds, \<^verbatim>\<open>processMediaPlaylist\<close> returns normally for
  every completion order; the events it appends to the trace contain one write for each
  segment line of the playlist, the written indices are \<open>0, 1, \<dots>, M - 1\<close> in this order,
  and the buffers written are the payloads of the segments in index order, so the bytes
  written are the concatenation of the payloads in index order.
\<close>

theorem segments_written_in_index_order:
  assumes "1 \<le> concurrency"
    and "segments = extractSegments playlist baseUrl"
    and "\<forall>u\<in>set segments. fetch_succeeds fetch u"
    and "ceil_div (length segments) (nat concurrency) \<le> fuel"
  shows "\<exists>tr'. processMediaPlaylist fetch delay fuel playlist baseUrl outputFile concurrency tr
                 = Some (Inr (), tr @ tr')
          \<and> write_indices tr' = map int [0..<length segments]
          \<and> written tr' = map (payload fetch) segments
          \<and> concat (written tr') = concat (map (payload fetch) segments)
          \<and> length (written tr')
              = length (filter (\<lambda>line. \<not> startsWith line ''#'' \<and> length (trim line) > 0)
                          (split_on (CHR 0x0A) playlist))"
proof -
  let ?bs = "chunks (nat concurrency) (enumerate 0 segments)"
  let ?tr' = "[FileOpen outputFile] @ concat (map (batch_events fetch) ?bs) @ [FileClose]"
  have n: "0 < nat concurrency" using assms(1) by simp
  have run: "processMediaPlaylist fetch delay fuel playlist baseUrl outputFile concurrency tr
           = Some (Inr (), tr @ ?tr')"
    using processMediaPlaylist_success[OF assms] by simp
  have idx: "write_indices ?tr' = map int [0..<length segments]"
    using n by (simp add: write_indices_batches concat_chunks map_index_enumerate)
  have wr: "written ?tr' = map (payload fetch) segments"
    using n by (simp add: written_batches concat_chunks map_payload_enumerate)
  have len: "length segments
              = length (filter (\<lambda>line. \<not> startsWith line ''#'' \<and> length (trim line) > 0)
                          (split_on (CHR 0x0A) playlist))"
    unfolding assms(2) extractSegments_eq by (simp add: is_segment_line_def[abs_def])
  from run idx wr len show ?thesis
    by (intro exI[of _ ?tr']) (simp del: append.simps)
qed

theorem segments_written_in_index_order_witness:
  "map_option (\<lambda>(r, t). (r, written t, write_indices t))
     (processMediaPlaylist
        (\<lambda>url. Response 200 ''OK'' (''<'' @ url @ ''>'')) (\<lambda>k. nat (10 - k)) 3
        ''#EXTM3U\<newline>a.ts\<newline>b.ts\<newline>c.ts\<newline>d.ts\<newline>e.ts\<newline>''
        ''http://h/d/p.m3u8'' ''out.ts'' 2 [])
   = Some (Inr (),
           [''<http://h/d/a.ts>'', ''<http://h/d/b.ts>'', ''<http://h/d/c.ts>'',
            ''<http://h/d/d.ts>'', ''<http://h/d/e.ts>''],
           [0, 1, 2, 3, 4])"
proof -
  define F where "F = (\<lambda>url. Response 200 ''OK'' (''<'' @ url @ ''>''))"
  define D where "D = (\<lambda>k::int. nat (10 - k))"
  define pl where "pl = ''#EXTM3U\<newline>a.ts\<newline>b.ts\<newline>c.ts\<newline>d.ts\<newline>e.ts\<newline>''"
  define segs where "segs = [''http://h/d/a.ts'', ''http://h/d/b.ts'', ''http://h/d/c.ts'',
                             ''http://h/d/d.ts'', ''http://h/d/e.ts'']"
  have h1: "(1::int) \<le> 2" by simp
  have h2: "segs = extractSegments pl ''http://h/d/p.m3u8''"
    unfolding segs_def pl_def by code_simp
  have h3: "\<forall>u\<in>set segs. fetch_succeeds F u"
    unfolding segs_def F_def by code_simp
  have h4: "ceil_div (length segs) (nat 2) \<le> 3"
    unfolding segs_def by code_simp
  from segments_written_in_index_order[OF h1 h2 h3 h4, of D "''out.ts''" "[]"]
  obtain tr' where
    run: "processMediaPlaylist F D 3 pl ''http://h/d/p.m3u8'' ''out.ts'' 2 [] = Some (Inr (), [] @ tr')"
    and idx: "write_indices tr' = map int [0..<length segs]"
    and wr: "written tr' = map (payload F) segs"
    by blast
  have p: "map (payload F) segs
             = [''<http://h/d/a.ts>'', ''<http://h/d/b.ts>'', ''<http://h/d/c.ts>'',
                ''<http://h/d/d.ts>'', ''<http://h/d/e.ts>'']"
    unfolding segs_def F_def by code_simp
  have i: "map int [0..<length segs] = [0, 1, 2, 3, 4]"
    unfolding segs_def by code_simp
  show ?thesis
    unfolding F_def[symmetric] D_def[symmetric] pl_def[symmetric]
    by (simp only: run append_Nil option.map prod.case wr idx p i)
qed

text \<open>
  C8. When every segment fetch succeeds, the trace of \<^verbatim>\<open>processMediaPlaylist\<close> is the
  opening of the file, then for each batch of the partition of the indexed segment list
  into consecutive batches of size \<open>C\<close> its fetches, its join and its writes, then the
  closing of the file. The partition has \<open>\<lceil>M / C\<rceil>\<close> batches, each non-empty and of size
  at most \<open>C\<close>, all but the last of size exactly \<open>C\<close>; the sizes joined are those of the
  partition, \<open>[2, 2, 1]\<close> for 5 segments and \<open>C = 2\<close>. Before a fetch of segment \<open>j\<close> is
  issued, every segment of every earlier batch (every index below \<open>(j div C) * C\<close>) has
  been written.
\<close>

theorem batches_partition_with_barrier:
  assumes "1 \<le> concurrency"
    and "segments = extractSegments playlist baseUrl"
    and "\<forall>u\<in>set segments. fetch_succeeds fetch u"
    and "ceil_div (length segments) (nat concurrency) \<le> fuel"
    and "batches = chunks (nat concurrency) (enumerate 0 segments)"
    and "events = concat (map (batch_events fetch) batches)"
  shows "processMediaPlaylist fetch delay fuel playlist baseUrl outputFile concurrency tr
           = Some (Inr (), tr @ [FileOpen outputFile] @ events @ [FileClose])
       \<and> concat batches = enumerate 0 segments
       \<and> length batches = ceil_div (length segments) (nat concurrency)
       \<and> (\<forall>b\<in>set batches. 0 < length b \<and> length b \<le> nat concurrency)
       \<and> (\<forall>b\<in>set (butlast batches). length b = nat concurrency)
       \<and> batch_sizes events = map length batches
       \<and> (length segments = 5 \<and> concurrency = 2 \<longrightarrow> batch_sizes events = [2, 2, 1])
       \<and> (\<forall>pre post j u i.
             events = pre @ FetchIssued (int j) u # post
             \<and> i < (j div nat concurrency) * nat concurrency
             \<longrightarrow> FileWrite (int i) (payload fetch (segments ! i)) \<in> set pre)"
proof -
  have n: "0 < nat concurrency" using assms(1) by simp
  have 1: "processMediaPlaylist fetch delay fuel playlist baseUrl outputFile concurrency tr
           = Some (Inr (), tr @ [FileOpen outputFile] @ events @ [FileClose])"
    unfolding assms(5,6) using assms(1-4) by (rule processMediaPlaylist_success)
  have 2: "concat batches = enumerate 0 segments"
    unfolding assms(5) using n by (rule concat_chunks)
  have 3: "length batches = ceil_div (length segments) (nat concurrency)"
    unfolding assms(5) using n by (simp add: length_chunks)
  have 4: "\<forall>b\<in>set batches. 0 < length b \<and> length b \<le> nat concurrency"
    unfolding assms(5) using n chunks_sizes by blast
  have 5: "\<forall>b\<in>set (butlast batches). length b = nat concurrency"
    unfolding assms(5) using n chunks_full_but_last by blast
  have 6: "batch_sizes events = map length batches"
    unfolding assms(6) by (rule batch_sizes_batches)
  have 7: "length segments = 5 \<and> concurrency = 2 \<longrightarrow> batch_sizes events = [2, 2, 1]"
    unfolding 6 assms(5) by (auto simp: chunks_5_by_2)
  have 8: "\<forall>pre post j u i.
             events = pre @ FetchIssued (int j) u # post
             \<and> i < (j div nat concurrency) * nat concurrency
             \<longrightarrow> FileWrite (int i) (payload fetch (segments ! i)) \<in> set pre"
    unfolding assms(5,6) using barrier[OF n] by blast
  from 1 2 3 4 5 6 7 8 show ?thesis by blast
qed

theorem batches_partition_with_barrier_witness:
  "processMediaPlaylist
     (\<lambda>url. Response 200 ''OK'' (''<'' @ url @ ''>'')) (\<lambda>k. nat (10 - k)) 3
     ''#EXTM3U\<newline>a.ts\<newline>b.ts\<newline>c.ts\<newline>d.ts\<newline>e.ts\<newline>''
     ''http://h/d/p.m3u8'' ''out.ts'' 2 []
   = Some (Inr (),
       [FileOpen ''out.ts'',
        FetchIssued 0 ''http://h/d/a.ts'', FetchIssued 1 ''http://h/d/b.ts'', BatchJoined 2,
        FileWrite 0 ''<http://h/d/a.ts>'', FileWrite 1 ''<http://h/d/b.ts>'',
        FetchIssued 2 ''http://h/d/c.ts'', FetchIssued 3 ''http://h/d/d.ts'', BatchJoined 2,
        FileWrite 2 ''<http://h/d/c.ts>'', FileWrite 3 ''<http://h/d/d.ts>'',
        FetchIssued 4 ''http://h/d/e.ts'', BatchJoined 1,
        FileWrite 4 ''<http://h/d/e.ts>'',
        FileClose])
   \<and> FileWrite 1 ''<http://h/d/b.ts>''
       \<in> set [FetchIssued 0 ''http://h/d/a.ts'', FetchIssued 1 ''http://h/d/b.ts'', BatchJoined 2,
              FileWrite 0 ''<http://h/d/a.ts>'', FileWrite 1 ''<http://h/d/b.ts>'']"
proof -
  define F where "F = (\<lambda>url. Response 200 ''OK'' (''<'' @ url @ ''>''))"
  define D where "D = (\<lambda>k::int. nat (10 - k))"
  define pl where "pl = ''#EXTM3U\<newline>a.ts\<newline>b.ts\<newline>c.ts\<newline>d.ts\<newline>e.ts\<newline>''"
  define segs where "segs = [''http://h/d/a.ts'', ''http://h/d/b.ts'', ''http://h/d/c.ts'',
                             ''http://h/d/d.ts'', ''http://h/d/e.ts'']"
  define batches where "batches = chunks (nat 2) (enumerate 0 segs)"
  define events where "events = concat (map (batch_events F) batches)"
  define pre where "pre = [FetchIssued 0 ''http://h/d/a.ts'', FetchIssued 1 ''http://h/d/b.ts'',
                           BatchJoined 2,
                           FileWrite 0 ''<http://h/d/a.ts>'', FileWrite 1 ''<http://h/d/b.ts>'']"
  define post where "post = [FetchIssued 3 ''http://h/d/d.ts'', BatchJoined 2,
        FileWrite 2 ''<http://h/d/c.ts>'', FileWrite 3 ''<http://h/d/d.ts>'',
        FetchIssued 4 ''http://h/d/e.ts'', BatchJoined 1,
        FileWrite 4 ''<http://h/d/e.ts>'']"
  have h1: "(1::int) \<le> 2" by simp
  have h2: "segs = extractSegments pl ''http://h/d/p.m3u8''"
    unfolding segs_def pl_def by code_simp
  have h3: "\<forall>u\<in>set segs. fetch_succeeds F u"
    unfolding segs_def F_def by code_simp
  have h4: "ceil_div (length segs) (nat 2) \<le> 3"
    unfolding segs_def by code_simp
  have ev: "events = pre @ FetchIssued (int 2) ''http://h/d/c.ts'' # post"
    unfolding events_def batches_def segs_def F_def pre_def post_def by code_simp
  have i: "1 < (2 div nat 2) * nat 2" by simp
  have p1: "payload F (segs ! 1) = ''<http://h/d/b.ts>''"
    unfolding segs_def F_def by code_simp
  note inst = batches_partition_with_barrier[OF h1 h2 h3 h4 batches_def events_def,
               of D "''out.ts''" "[]"]
  from inst have run: "processMediaPlaylist F D 3 pl ''http://h/d/p.m3u8'' ''out.ts'' 2 []
          = Some (Inr (), [] @ [FileOpen ''out.ts''] @ events @ [FileClose])"
    by blast
  from inst ev i have "FileWrite (int 1) (payload F (segs ! 1)) \<in> set pre"
    by blast
  then have bar: "FileWrite 1 ''<http://h/d/b.ts>'' \<in> set pre"
    unfolding p1 by simp
  from run bar show ?thesis
    unfolding F_def[symmetric] D_def[symmetric] pl_def[symmetric] ev pre_def post_def by simp
qed

text \<open>
  C10. For a concurrency \<open>C \<ge> 1\<close> the batch loop returns within \<open>\<lceil>M / C\<rceil>\<close> iterations
  whatever the transport does; when no fetch fails it returns within \<open>fuel\<close> iterations
  exactly when \<open>\<lceil>M / C\<rceil> \<le> fuel\<close>, so it performs exactly \<open>\<lceil>M / C\<rceil>\<close> iterations. With
  \<open>C = 0\<close> and a non-empty segment list the index never advances and the loop returns
  within no number of iterations.
\<close>

theorem batch_loop_iterations:
  "(1 \<le> c \<longrightarrow>
      batch_loop fetch delay segments c (ceil_div (length segments) (nat c)) 0 tr \<noteq> None)
   \<and> (1 \<le> c \<and> (\<forall>u\<in>set segments. fetch_succeeds fetch u) \<longrightarrow>
        (batch_loop fetch delay segments c fuel 0 tr \<noteq> None
           \<longleftrightarrow> ceil_div (length segments) (nat c) \<le> fuel))
   \<and> (segments \<noteq> [] \<longrightarrow> batch_loop fetch delay segments 0 fuel 0 tr = None)"
proof (intro conjI impI)
  assume "1 \<le> c"
  then show "batch_loop fetch delay segments c (ceil_div (length segments) (nat c)) 0 tr \<noteq> None"
    using batch_loop_returns[of c segments 0 _ fetch delay tr] by simp
next
  assume a: "1 \<le> c \<and> (\<forall>u\<in>set segments. fetch_succeeds fetch u)"
  show "batch_loop fetch delay segments c fuel 0 tr \<noteq> None
           \<longleftrightarrow> ceil_div (length segments) (nat c) \<le> fuel"
  proof (cases "ceil_div (length segments) (nat c) \<le> fuel")
    case True
    with a show ?thesis
      using batch_loop_returns[of c segments 0 fuel fetch delay tr] by simp
  next
    case False
    with a show ?thesis
      using batch_loop_needs_fuel[of c 0 segments fetch fuel delay tr] by simp
  qed
next
  assume "segments \<noteq> []"
  then show "batch_loop fetch delay segments 0 fuel 0 tr = None"
    by (rule batch_loop_zero_concurrency)
qed

theorem batch_loop_iterations_witness:
  "batch_loop (\<lambda>url. Response 200 ''OK'' url) (\<lambda>k. 0) [''a'', ''b'', ''c'', ''d'', ''e''] 2 3 0 [] \<noteq> None
   \<and> batch_loop (\<lambda>url. Response 200 ''OK'' url) (\<lambda>k. 0) [''a'', ''b'', ''c'', ''d'', ''e''] 2 2 0 [] = None
   \<and> batch_loop (\<lambda>url. Response 200 ''OK'' url) (\<lambda>k. 0) [''a'', ''b'', ''c'', ''d'', ''e''] 0 7 0 [] = None"
proof -
  define F where "F = (\<lambda>url. Response 200 ''OK'' url)"
  define D where "D = (\<lambda>k::int. 0::nat)"
  define segs where "segs = [''a'', ''b'', ''c'', ''d'', ''e'']"
  have h1: "(1::int) \<le> 2" by simp
  have h3: "\<forall>u\<in>set segs. fetch_succeeds F u"
    unfolding segs_def F_def by code_simp
  have c: "ceil_div (length segs) (nat 2) = 3"
    unfolding segs_def by code_simp
  have ne: "segs \<noteq> []" unfolding segs_def by simp
  from batch_loop_iterations[of 2 F D segs "[]" 3] h1 h3 c
  have a: "batch_loop F D segs 2 3 0 [] \<noteq> None" by simp
  from batch_loop_iterations[of 2 F D segs "[]" 2] h1 h3
  have "(batch_loop F D segs 2 2 0 [] \<noteq> None) = (ceil_div (length segs) (nat 2) \<le> 2)"
    by blast
  then have b: "batch_loop F D segs 2 2 0 [] = None"
    unfolding c by (cases "batch_loop F D segs 2 2 0 []") simp_all
  from batch_loop_iterations[of 0 F D segs "[]" 7] ne
  have d: "batch_loop F D segs 0 7 0 [] = None" by simp
  from a b d show ?thesis
    unfolding F_def D_def segs_def by blast
qed

text \<open>
  C6, as the code has it. Let batch \<open>b\<close> be the first batch in which a fetch fails. Then
  \<^verbatim>\<open>processMediaPlaylist\<close> fails with the error \<open>e\<close> that \<^verbatim>\<open>downloadSegment\<close>
  throws for a failing URL \<open>u\<close> of that batch: for a response that is not 2xx, a plain
  \<^verbatim>\<open>Error\<close> whose message names the URL, the status and the status text; for a
  rejection of the transport, that rejection itself, unwrapped. The buffers written are the
  payloads of the segments of the earlier batches only, and the last event is the closing of
  the file. \<^verbatim>\<open>downloadM3U8\<close> on a media playlist returns what
  \<^verbatim>\<open>processMediaPlaylist\<close> returns, so the whole operation fails with the same error.
\<close>

theorem failed_fetch_aborts:
  assumes "1 \<le> c" "segments = extractSegments playlist baseUrl"
    and "b * nat c < length segments"
    and "\<forall>u\<in>set (take (b * nat c) segments). fetch_succeeds fetch u"
    and "\<exists>u\<in>set (take (nat c) (drop (b * nat c) segments)). \<not> fetch_succeeds fetch u"
    and "b < fuel"
  shows "(\<exists>e u tr'.
            processMediaPlaylist fetch delay fuel playlist baseUrl outputFile c tr
              = Some (Inl e, tr @ tr')
          \<and> u \<in> set (take (nat c) (drop (b * nat c) segments))
          \<and> downloadSegment fetch u = Inl e
          \<and> (case fetch u of
                Rejected e' \<Rightarrow> e = e'
              | Response status statusText body \<Rightarrow>
                  \<not> response_ok status
                  \<and> e = JsError ''Error''
                        (''Failed to fetch segment '' @ u @ '': '' @ show_nat status
                           @ '' '' @ statusText))
          \<and> written tr' = map (payload fetch) (take (b * nat c) segments)
          \<and> tr' \<noteq> [] \<and> last tr' = FileClose)
       \<and> (fetchText fetch baseUrl = Inr playlist \<and> \<not> includesStr playlist STREAM_INF
           \<longrightarrow> downloadM3U8 fetch delay (Suc fuel) baseUrl outputFile (Some c) tr
                 = processMediaPlaylist fetch delay fuel playlist baseUrl outputFile c
                     (tr @ [PlaylistFetched baseUrl, EnsureDir outputFile]))"
proof (intro conjI impI)
  have n: "0 < nat c" using assms(1) by simp
  define tr' where "tr' = [FileOpen outputFile]
                      @ concat (map (batch_events fetch)
                          (take b (chunks (nat c) (enumerate 0 segments))))
                      @ map (\<lambda>(index, url). FetchIssued (int index) url)
                          (enumerate (b * nat c) (take (nat c) (drop (b * nat c) segments)))
                      @ [FileClose]"
  from processMediaPlaylist_failure[OF assms, of delay outputFile tr] obtain e u where
    eu: "processMediaPlaylist fetch delay fuel playlist baseUrl outputFile c tr
           = Some (Inl e, tr @ tr')"
        "u \<in> set (take (nat c) (drop (b * nat c) segments))"
        "downloadSegment fetch u = Inl e"
    unfolding tr'_def by blast
  have "map (\<lambda>(index, url). payload fetch url)
          (concat (take b (chunks (nat c) (enumerate 0 segments))))
        = map (payload fetch) (take (b * nat c) segments)"
    using n by (simp add: concat_take_chunks take_enumerate_eq map_payload_enumerate)
  then have wr: "written tr' = map (payload fetch) (take (b * nat c) segments)"
    unfolding tr'_def by (simp add: written_batches)
  have last: "tr' \<noteq> []" "last tr' = FileClose" unfolding tr'_def by simp_all
  from eu wr last downloadSegment_error_shape[OF eu(3)]
  show "\<exists>e u tr'.
            processMediaPlaylist fetch delay fuel playlist baseUrl outputFile c tr
              = Some (Inl e, tr @ tr')
          \<and> u \<in> set (take (nat c) (drop (b * nat c) segments))
          \<and> downloadSegment fetch u = Inl e
          \<and> (case fetch u of
                Rejected e' \<Rightarrow> e = e'
              | Response status statusText body \<Rightarrow>
                  \<not> response_ok status
                  \<and> e = JsError ''Error''
                        (''Failed to fetch segment '' @ u @ '': '' @ show_nat status
                           @ '' '' @ statusText))
          \<and> written tr' = map (payload fetch) (take (b * nat c) segments)
          \<and> tr' \<noteq> [] \<and> last tr' = FileClose"
    by blast
next
  assume "fetchText fetch baseUrl = Inr playlist \<and> \<not> includesStr playlist STREAM_INF"
  then show "downloadM3U8 fetch delay (Suc fuel) baseUrl outputFile (Some c) tr
                 = processMediaPlaylist fetch delay fuel playlist baseUrl outputFile c
                     (tr @ [PlaylistFetched baseUrl, EnsureDir outputFile])"
    using downloadM3U8_media by blast
qed

theorem failed_fetch_aborts_witness:
  "map_option (\<lambda>(r, t). (r, written t, last t))
     (downloadM3U8
        (\<lambda>url. if url = ''http://h/d/p.m3u8''
              then Response 200 ''OK''
                     ''#EXTM3U\<newline>a.ts\<newline>b.ts\<newline>c.ts\<newline>bad.ts\<newline>e.ts\<newline>''
              else if url = ''http://h/d/bad.ts'' then Response 404 ''Not Found'' []
              else Response 200 ''OK'' (''<'' @ url @ ''>''))
        (\<lambda>k. nat (10 - k)) 4 ''http://h/d/p.m3u8'' ''out.ts'' (Some 2) [])
   = Some (Inl (JsError ''Error'' ''Failed to fetch segment http://h/d/bad.ts: 404 Not Found''),
           [''<http://h/d/a.ts>'', ''<http://h/d/b.ts>''],
           FileClose)"
proof -
  define F where "F = (\<lambda>url. if url = ''http://h/d/p.m3u8''
              then Response 200 ''OK''
                     ''#EXTM3U\<newline>a.ts\<newline>b.ts\<newline>c.ts\<newline>bad.ts\<newline>e.ts\<newline>''
              else if url = ''http://h/d/bad.ts'' then Response 404 ''Not Found'' []
              else Response 200 ''OK'' (''<'' @ url @ ''>''))"
  define D where "D = (\<lambda>k::int. nat (10 - k))"
  define pl where "pl = ''#EXTM3U\<newline>a.ts\<newline>b.ts\<newline>c.ts\<newline>bad.ts\<newline>e.ts\<newline>''"
  define segs where "segs = [''http://h/d/a.ts'', ''http://h/d/b.ts'', ''http://h/d/c.ts'',
                             ''http://h/d/bad.ts'', ''http://h/d/e.ts'']"
  define E where "E = JsError ''Error'' ''Failed to fetch segment http://h/d/bad.ts: 404 Not Found''"
  define tr0 where "tr0 = [PlaylistFetched ''http://h/d/p.m3u8'', EnsureDir ''out.ts'']"
  have h1: "(1::int) \<le> 2" by simp
  have h2: "segs = extractSegments pl ''http://h/d/p.m3u8''"
    unfolding segs_def pl_def by code_simp
  have h3: "1 * nat 2 < length segs" unfolding segs_def by code_simp
  have h4: "\<forall>u\<in>set (take (1 * nat 2) segs). fetch_succeeds F u"
    unfolding segs_def F_def by code_simp
  have h5: "\<exists>u\<in>set (take (nat 2) (drop (1 * nat 2) segs)). \<not> fetch_succeeds F u"
    unfolding segs_def F_def by code_simp
  have h6: "(1::nat) < 3" by simp
  have media: "fetchText F ''http://h/d/p.m3u8'' = Inr pl \<and> \<not> includesStr pl STREAM_INF"
    unfolding F_def pl_def by code_simp
  have errs: "\<forall>u\<in>set (take (nat 2) (drop (1 * nat 2) segs)).
                downloadSegment F u = Inl E \<or> downloadSegment F u = Inr (payload F u)"
    unfolding segs_def F_def E_def by code_simp
  have p: "map (payload F) (take (1 * nat 2) segs) = [''<http://h/d/a.ts>'', ''<http://h/d/b.ts>'']"
    unfolding segs_def F_def by code_simp
  have w0: "written tr0 = []" unfolding tr0_def by code_simp
  from failed_fetch_aborts[OF h1 h2 h3 h4 h5 h6, of D "''out.ts''" "[]"] media
  have whole: "downloadM3U8 F D (Suc 3) ''http://h/d/p.m3u8'' ''out.ts'' (Some 2) []
                 = processMediaPlaylist F D 3 pl ''http://h/d/p.m3u8'' ''out.ts'' 2 tr0"
    unfolding tr0_def by simp
  from failed_fetch_aborts[OF h1 h2 h3 h4 h5 h6, of D "''out.ts''" tr0]
  obtain e u tr' where
    run: "processMediaPlaylist F D 3 pl ''http://h/d/p.m3u8'' ''out.ts'' 2 tr0 = Some (Inl e, tr0 @ tr')"
    and u: "u \<in> set (take (nat 2) (drop (1 * nat 2) segs))"
    and e: "downloadSegment F u = Inl e"
    and wr: "written tr' = map (payload F) (take (1 * nat 2) segs)"
    and ne: "tr' \<noteq> []"
    and last: "last tr' = FileClose"
    by blast
  from errs u e have eE: "e = E" by auto
  have "Suc 3 = 4" by simp
  with whole have whole4: "downloadM3U8 F D 4 ''http://h/d/p.m3u8'' ''out.ts'' (Some 2) []
                 = processMediaPlaylist F D 3 pl ''http://h/d/p.m3u8'' ''out.ts'' 2 tr0"
    by (simp only:)
  show ?thesis
    unfolding F_def[symmetric] D_def[symmetric] E_def[symmetric]
    by (simp only: whole4 run eE option.map prod.case written_append wr p w0 append_Nil
          last_appendR[OF ne] last)
qed

text \<open>
  C6 as stated fails: the error of a 503 response is a plain \<^verbatim>\<open>Error\<close>, not a
  SegmentFetchError, and a rejection of the transport is passed on as it is, with no URL
  in it.
\<close>

theorem failed_fetch_error_is_plain:
  "processMediaPlaylist
     (\<lambda>url. if url = ''http://h/d/b.ts'' then Response 503 ''Service Unavailable'' ''busy''
           else Response 200 ''OK'' (''<'' @ url @ ''>''))
     (\<lambda>k. 0) 1 ''a.ts\<newline>b.ts'' ''http://h/d/p.m3u8'' ''out.ts'' 2 []
   = Some (Inl (JsError ''Error''
                  ''Failed to fetch segment http://h/d/b.ts: 503 Service Unavailable''),
           [FileOpen ''out.ts'', FetchIssued 0 ''http://h/d/a.ts'',
            FetchIssued 1 ''http://h/d/b.ts'', FileClose])
   \<and> processMediaPlaylist
       (\<lambda>url. if url = ''http://h/d/b.ts''
             then Rejected (JsError ''TypeError'' ''error sending request'')
             else Response 200 ''OK'' (''<'' @ url @ ''>''))
       (\<lambda>k. 0) 1 ''a.ts\<newline>b.ts'' ''http://h/d/p.m3u8'' ''out.ts'' 2 []
     = Some (Inl (JsError ''TypeError'' ''error sending request''),
             [FileOpen ''out.ts'', FetchIssued 0 ''http://h/d/a.ts'',
              FetchIssued 1 ''http://h/d/b.ts'', FileClose])"
  by code_simp

section \<open>The default concurrency\<close>

text \<open>
  C7, as the code has it. The command line passes 10 when the third argument is omitted
  or empty. The parameter of \<^verbatim>\<open>downloadM3U8\<close> itself has the default 5: a call
  without the concurrency argument is a call with concurrency 5.
\<close>

theorem default_concurrency:
  "cli [url, outputFile] = Invoke url outputFile (Num 10)
   \<and> cli [url, outputFile, []] = Invoke url outputFile (Num 10)
   \<and> downloadM3U8 fetch delay fuel url outputFile None tr
       = downloadM3U8 fetch delay fuel url outputFile (Some 5) tr"
  by (cases fuel) (simp_all add: cli_def lookup_def)

text \<open>
  C7 as stated fails: called without the concurrency argument on a playlist of 6 segments,
  \<^verbatim>\<open>downloadM3U8\<close> joins batches of sizes 5 and 1; with concurrency 10 it joins one
  batch of 6.
\<close>

theorem function_default_is_five:
  "map_option (\<lambda>(r, t). batch_sizes t)
     (downloadM3U8
        (\<lambda>url. if url = ''http://h/d/p.m3u8''
              then Response 200 ''OK''
                     ''a.ts\<newline>b.ts\<newline>c.ts\<newline>d.ts\<newline>e.ts\<newline>f.ts''
              else Response 200 ''OK'' url)
        (\<lambda>k. 0) 3 ''http://h/d/p.m3u8'' ''out.ts'' None [])
   = Some [5, 1]
   \<and> map_option (\<lambda>(r, t). batch_sizes t)
     (downloadM3U8
        (\<lambda>url. if url = ''http://h/d/p.m3u8''
              then Response 200 ''OK''
                     ''a.ts\<newline>b.ts\<newline>c.ts\<newline>d.ts\<newline>e.ts\<newline>f.ts''
              else Response 200 ''OK'' url)
        (\<lambda>k. 0) 3 ''http://h/d/p.m3u8'' ''out.ts'' (Some 10) [])
   = Some [6]"
  by code_simp

end
